theory Spec2Isabelle
  imports Main "HOL-Library.Sublist"
begin

section \<open>Strings and the two regular expressions of the source\<close>

text \<open>
  A Python \<^verbatim>\<open>str\<close> is modelled as a \<^typ>\<open>string\<close>: a list of code points below 256.
  On these code points \<^verbatim>\<open>str.isspace\<close> and the class \<^verbatim>\<open>\s\<close> of \<^verbatim>\<open>re\<close> hold for
  9..13, 28..31, 32, 133 and 160, the class \<^verbatim>\<open>\d\<close> holds for the ten ASCII digits,
  and \<^verbatim>\<open>str.lower\<close> adds 32 to A..Z, to 192..214 and to 216..222 and leaves the rest.
\<close>

definition is_space :: "char \<Rightarrow> bool" where
  "is_space c = (c \<in> set [CHR 0x09, CHR 0x0A, CHR 0x0B, CHR 0x0C, CHR 0x0D, CHR 0x1C, CHR 0x1D,
                            CHR 0x1E, CHR 0x1F, CHR 0x20, CHR 0x85, CHR 0xA0])"

definition is_digit :: "char \<Rightarrow> bool" where
  "is_digit c = (c \<in> set ''0123456789'')"

definition uppercase :: string where
  "uppercase = ''ABCDEFGHIJKLMNOPQRSTUVWXYZ'' @
     [CHR 0xC0, CHR 0xC1, CHR 0xC2, CHR 0xC3, CHR 0xC4, CHR 0xC5, CHR 0xC6, CHR 0xC7,
      CHR 0xC8, CHR 0xC9, CHR 0xCA, CHR 0xCB, CHR 0xCC, CHR 0xCD, CHR 0xCE, CHR 0xCF,
      CHR 0xD0, CHR 0xD1, CHR 0xD2, CHR 0xD3, CHR 0xD4, CHR 0xD5, CHR 0xD6,
      CHR 0xD8, CHR 0xD9, CHR 0xDA, CHR 0xDB, CHR 0xDC, CHR 0xDD, CHR 0xDE]"

definition lowercase :: string where
  "lowercase = ''abcdefghijklmnopqrstuvwxyz'' @
     [CHR 0xE0, CHR 0xE1, CHR 0xE2, CHR 0xE3, CHR 0xE4, CHR 0xE5, CHR 0xE6, CHR 0xE7,
      CHR 0xE8, CHR 0xE9, CHR 0xEA, CHR 0xEB, CHR 0xEC, CHR 0xED, CHR 0xEE, CHR 0xEF,
      CHR 0xF0, CHR 0xF1, CHR 0xF2, CHR 0xF3, CHR 0xF4, CHR 0xF5, CHR 0xF6,
      CHR 0xF8, CHR 0xF9, CHR 0xFA, CHR 0xFB, CHR 0xFC, CHR 0xFD, CHR 0xFE]"

definition to_lower :: "char \<Rightarrow> char" where
  "to_lower c = (case map_of (zip uppercase lowercase) c of Some l \<Rightarrow> l | None \<Rightarrow> c)"

definition lower :: "string \<Rightarrow> string" where
  "lower s = map to_lower s"

definition strip :: "string \<Rightarrow> string" where
  "strip s = rev (dropWhile is_space (rev (dropWhile is_space s)))"

text \<open>
  With \<^verbatim>\<open>re.IGNORECASE\<close> a literal character of the pattern matches a character of the
  text when their lower-case forms agree. \<open>match_literal_ci p s\<close> returns what is left
  of \<open>s\<close> after the literal \<open>p\<close>.
\<close>

fun match_literal_ci :: "string \<Rightarrow> string \<Rightarrow> string option" where
  "match_literal_ci [] s = Some s"
| "match_literal_ci (p # ps) [] = None"
| "match_literal_ci (p # ps) (c # cs) =
     (if to_lower c = to_lower p then match_literal_ci ps cs else None)"

text \<open>
  The pattern \<^verbatim>\<open>Area\s+\d+:\<close> of \<^verbatim>\<open>_validate_entity_count\<close>, tried at the start of \<open>s\<close>.
  The greedy \<^verbatim>\<open>\s+\<close> takes the whole run of white space and \<^verbatim>\<open>\d+\<close> the whole run of
  digits; giving characters back never helps, since what follows a shortened run is a
  character of the run's own class, which is neither a digit (after white space) nor a
  colon (after digits). The result is the length of the match.
\<close>

definition match_area_heading :: "string \<Rightarrow> (nat \<times> unit) option" where
  "match_area_heading s =
     (case match_literal_ci ''Area'' s of
        None \<Rightarrow> None
      | Some r \<Rightarrow>
          let ws = takeWhile is_space r;
              ds = takeWhile is_digit (dropWhile is_space r);
              rest = dropWhile is_digit (dropWhile is_space r)
          in if ws = [] \<or> ds = [] then None
             else (case rest of
                     [] \<Rightarrow> None
                   | c # _ \<Rightarrow> if c = CHR '':'' then Some (4 + length ws + length ds + 1, ())
                              else None))"

text \<open>
  The pattern \<^verbatim>\<open>Impacted Area\s+(\d+)\<close> of \<^verbatim>\<open>extract_impacted_areas_from_text\<close>: the
  length of the match and the text of group 1.
\<close>

definition match_impacted_area :: "string \<Rightarrow> (nat \<times> string) option" where
  "match_impacted_area s =
     (case match_literal_ci ''Impacted Area'' s of
        None \<Rightarrow> None
      | Some r \<Rightarrow>
          let ws = takeWhile is_space r;
              ds = takeWhile is_digit (dropWhile is_space r)
          in if ws = [] \<or> ds = [] then None
             else Some (13 + length ws + length ds, ds))"

text \<open>
  \<^verbatim>\<open>re.finditer\<close> and \<^verbatim>\<open>re.findall\<close> scan from left to right: a match at the current
  position is reported and the scan goes on where the match ended, otherwise it moves
  one character on. \<open>pos\<close> is the offset of \<open>s\<close> in the whole text. Both patterns
  match at least four characters; the branch for an empty match is never taken.
\<close>

function re_scan :: "(string \<Rightarrow> (nat \<times> 'g) option) \<Rightarrow> nat \<Rightarrow> string \<Rightarrow> (nat \<times> 'g) list" where
  "re_scan m pos s =
     (case m s of
        Some (n, g) \<Rightarrow>
          (pos, g) # (if n = 0 \<or> s = [] then [] else re_scan m (pos + n) (drop n s))
      | None \<Rightarrow> (case s of [] \<Rightarrow> [] | c # t \<Rightarrow> re_scan m (pos + 1) t))"
  by pat_completeness auto
termination
  by (relation "measure (\<lambda>(m, pos, s). length s)") auto

declare re_scan.simps [simp del]

text \<open>
  For comparison with the scan: every position of the text at which the pattern matches,
  from left to right, whether or not an earlier match covers it.
\<close>

fun all_matches :: "(string \<Rightarrow> (nat \<times> 'g) option) \<Rightarrow> nat \<Rightarrow> string \<Rightarrow> (nat \<times> 'g) list" where
  "all_matches m pos [] = []"
| "all_matches m pos (c # t) =
     (case m (c # t) of Some (n, g) \<Rightarrow> [(pos, g)] | None \<Rightarrow> []) @ all_matches m (Suc pos) t"

text \<open>
  A matcher whose matches are never empty, stay inside the text and contain no start of
  another match.
\<close>

definition no_overlap :: "(string \<Rightarrow> (nat \<times> 'g) option) \<Rightarrow> bool" where
  "no_overlap m = (\<forall>s n g. m s = Some (n, g) \<longrightarrow>
      0 < n \<and> n \<le> length s \<and> (\<forall>k. 0 < k \<and> k < n \<longrightarrow> m (drop k s) = None))"

text \<open>
  The heading \<^verbatim>\<open>Area <integer>:\<close> as a set of strings: the word in any case, white
  space, digits, a colon.
\<close>

definition is_area_heading :: "string \<Rightarrow> bool" where
  "is_area_heading h = (\<exists>l ws ds. h = l @ ws @ ds @ '':'' \<and> lower l = ''area'' \<and>
       ws \<noteq> [] \<and> list_all is_space ws \<and> ds \<noteq> [] \<and> list_all is_digit ds)"

definition heading_positions :: "string \<Rightarrow> nat set" where
  "heading_positions text = {i. \<exists>h. is_area_heading h \<and> prefix h (drop i text)}"

subsection \<open>The scan finds every match\<close>

lemma all_matches_skip:
  "\<forall>k < n. m (drop k s) = None \<Longrightarrow> n \<le> length s \<Longrightarrow>
   all_matches m pos s = all_matches m (pos + n) (drop n s)"
proof (induction n arbitrary: pos s)
  case 0
  then show ?case by simp
next
  case (Suc n)
  then obtain c t where s: "s = c # t" by (cases s) auto
  from Suc.prems(1) have "m s = None" by (metis drop0 zero_less_Suc)
  moreover have "\<forall>k < n. m (drop k t) = None"
    using Suc.prems(1) s by (metis Suc_less_eq drop_Suc_Cons)
  moreover have "n \<le> length t" using Suc.prems(2) s by simp
  ultimately show ?case using Suc.IH [of t "Suc pos"] s by simp
qed

lemma re_scan_all_matches:
  assumes "no_overlap m"
  shows "re_scan m pos s = all_matches m pos s"
  using assms
proof (induction m pos s rule: re_scan.induct)
  case (1 m pos s)
  show ?case
  proof (cases "m s")
    case None
    show ?thesis
    proof (cases s)
      case Nil
      with None show ?thesis by (simp add: re_scan.simps [of m pos])
    next
      case (Cons c t)
      from 1(1) [OF None Cons 1(3)] None Cons show ?thesis
        by (simp add: re_scan.simps [of m pos])
    qed
  next
    case (Some ng)
    obtain n g where ng: "ng = (n, g)" by (cases ng)
    from 1(3) Some ng
    have "0 < n \<and> n \<le> length s \<and> (\<forall>k. 0 < k \<and> k < n \<longrightarrow> m (drop k s) = None)"
      unfolding no_overlap_def by blast
    then have n: "0 < n" "n \<le> length s"
      and free: "\<forall>k. 0 < k \<and> k < n \<longrightarrow> m (drop k s) = None"
      by simp_all
    from n obtain c t where s: "s = c # t" by (cases s) auto
    have "\<forall>k < n - 1. m (drop k t) = None"
    proof (intro allI impI)
      fix k assume "k < n - 1"
      then have "0 < Suc k \<and> Suc k < n" by simp
      with free have "m (drop (Suc k) s) = None" by blast
      then show "m (drop k t) = None" by (simp add: s)
    qed
    moreover have "n - 1 \<le> length t" using n s by simp
    ultimately have "all_matches m (Suc pos) t = all_matches m (Suc pos + (n - 1)) (drop (n - 1) t)"
      by (rule all_matches_skip)
    also have "\<dots> = all_matches m (pos + n) (drop n s)"
      using n s by (cases n) simp_all
    finally have skip: "all_matches m (Suc pos) t = all_matches m (pos + n) (drop n s)" .
    have "re_scan m (pos + n) (drop n s) = all_matches m (pos + n) (drop n s)"
      using 1(2) [OF Some ng [symmetric] _ 1(3)] n s by simp
    then show ?thesis
      using Some ng n s skip by (simp add: re_scan.simps [of m pos])
  qed
qed

lemma match_literal_ci_Some: "match_literal_ci p s = Some r \<longleftrightarrow>
  (\<exists>l. s = l @ r \<and> length l = length p \<and> map to_lower l = map to_lower p)"
proof (induction p s rule: match_literal_ci.induct)
  case (1 s)
  then show ?case by auto
next
  case (2 p ps)
  then show ?case by auto
next
  case (3 p ps c cs)
  show ?case
  proof (cases "to_lower c = to_lower p")
    case True
    with 3 show ?thesis
      by (auto simp: Cons_eq_append_conv length_Suc_conv) 
  next
    case False
    then show ?thesis
      by (auto simp: Cons_eq_append_conv length_Suc_conv)
  qed
qed

text \<open>Lower-casing of the characters the examples below are written in.\<close>

lemma lower_table:
  "zip uppercase lowercase =
     [(CHR ''A'', CHR ''a''), (CHR ''B'', CHR ''b''), (CHR ''C'', CHR ''c''), (CHR ''D'', CHR ''d''),
      (CHR ''E'', CHR ''e''), (CHR ''F'', CHR ''f''), (CHR ''G'', CHR ''g''), (CHR ''H'', CHR ''h''),
      (CHR ''I'', CHR ''i''), (CHR ''J'', CHR ''j''), (CHR ''K'', CHR ''k''), (CHR ''L'', CHR ''l''),
      (CHR ''M'', CHR ''m''), (CHR ''N'', CHR ''n''), (CHR ''O'', CHR ''o''), (CHR ''P'', CHR ''p''),
      (CHR ''Q'', CHR ''q''), (CHR ''R'', CHR ''r''), (CHR ''S'', CHR ''s''), (CHR ''T'', CHR ''t''),
      (CHR ''U'', CHR ''u''), (CHR ''V'', CHR ''v''), (CHR ''W'', CHR ''w''), (CHR ''X'', CHR ''x''),
      (CHR ''Y'', CHR ''y''), (CHR ''Z'', CHR ''z''), (CHR 0xC0, CHR 0xE0), (CHR 0xC1, CHR 0xE1),
      (CHR 0xC2, CHR 0xE2), (CHR 0xC3, CHR 0xE3), (CHR 0xC4, CHR 0xE4), (CHR 0xC5, CHR 0xE5),
      (CHR 0xC6, CHR 0xE6), (CHR 0xC7, CHR 0xE7), (CHR 0xC8, CHR 0xE8), (CHR 0xC9, CHR 0xE9),
      (CHR 0xCA, CHR 0xEA), (CHR 0xCB, CHR 0xEB), (CHR 0xCC, CHR 0xEC), (CHR 0xCD, CHR 0xED),
      (CHR 0xCE, CHR 0xEE), (CHR 0xCF, CHR 0xEF), (CHR 0xD0, CHR 0xF0), (CHR 0xD1, CHR 0xF1),
      (CHR 0xD2, CHR 0xF2), (CHR 0xD3, CHR 0xF3), (CHR 0xD4, CHR 0xF4), (CHR 0xD5, CHR 0xF5),
      (CHR 0xD6, CHR 0xF6), (CHR 0xD8, CHR 0xF8), (CHR 0xD9, CHR 0xF9), (CHR 0xDA, CHR 0xFA),
      (CHR 0xDB, CHR 0xFB), (CHR 0xDC, CHR 0xFC), (CHR 0xDD, CHR 0xFD), (CHR 0xDE, CHR 0xFE)]"
  by (simp add: uppercase_def lowercase_def)

lemma to_lower_ascii:
  "to_lower CHR ''a'' = CHR ''a'' \<and> to_lower CHR ''b'' = CHR ''b'' \<and> to_lower CHR ''c'' = CHR ''c'' \<and>
   to_lower CHR ''d'' = CHR ''d'' \<and> to_lower CHR ''e'' = CHR ''e'' \<and> to_lower CHR ''f'' = CHR ''f'' \<and>
   to_lower CHR ''g'' = CHR ''g'' \<and> to_lower CHR ''h'' = CHR ''h'' \<and> to_lower CHR ''i'' = CHR ''i'' \<and>
   to_lower CHR ''j'' = CHR ''j'' \<and> to_lower CHR ''k'' = CHR ''k'' \<and> to_lower CHR ''l'' = CHR ''l'' \<and>
   to_lower CHR ''m'' = CHR ''m'' \<and> to_lower CHR ''n'' = CHR ''n'' \<and> to_lower CHR ''o'' = CHR ''o'' \<and>
   to_lower CHR ''p'' = CHR ''p'' \<and> to_lower CHR ''q'' = CHR ''q'' \<and> to_lower CHR ''r'' = CHR ''r'' \<and>
   to_lower CHR ''s'' = CHR ''s'' \<and> to_lower CHR ''t'' = CHR ''t'' \<and> to_lower CHR ''u'' = CHR ''u'' \<and>
   to_lower CHR ''v'' = CHR ''v'' \<and> to_lower CHR ''w'' = CHR ''w'' \<and> to_lower CHR ''x'' = CHR ''x'' \<and>
   to_lower CHR ''y'' = CHR ''y'' \<and> to_lower CHR ''z'' = CHR ''z'' \<and> to_lower CHR ''A'' = CHR ''a'' \<and>
   to_lower CHR ''B'' = CHR ''b'' \<and> to_lower CHR ''C'' = CHR ''c'' \<and> to_lower CHR ''D'' = CHR ''d'' \<and>
   to_lower CHR ''E'' = CHR ''e'' \<and> to_lower CHR ''F'' = CHR ''f'' \<and> to_lower CHR ''G'' = CHR ''g'' \<and>
   to_lower CHR ''H'' = CHR ''h'' \<and> to_lower CHR ''I'' = CHR ''i'' \<and> to_lower CHR ''J'' = CHR ''j'' \<and>
   to_lower CHR ''K'' = CHR ''k'' \<and> to_lower CHR ''L'' = CHR ''l'' \<and> to_lower CHR ''M'' = CHR ''m'' \<and>
   to_lower CHR ''N'' = CHR ''n'' \<and> to_lower CHR ''O'' = CHR ''o'' \<and> to_lower CHR ''P'' = CHR ''p'' \<and>
   to_lower CHR ''Q'' = CHR ''q'' \<and> to_lower CHR ''R'' = CHR ''r'' \<and> to_lower CHR ''S'' = CHR ''s'' \<and>
   to_lower CHR ''T'' = CHR ''t'' \<and> to_lower CHR ''U'' = CHR ''u'' \<and> to_lower CHR ''V'' = CHR ''v'' \<and>
   to_lower CHR ''W'' = CHR ''w'' \<and> to_lower CHR ''X'' = CHR ''x'' \<and> to_lower CHR ''Y'' = CHR ''y'' \<and>
   to_lower CHR ''Z'' = CHR ''z'' \<and> to_lower CHR ''0'' = CHR ''0'' \<and> to_lower CHR ''1'' = CHR ''1'' \<and>
   to_lower CHR ''2'' = CHR ''2'' \<and> to_lower CHR ''3'' = CHR ''3'' \<and> to_lower CHR ''4'' = CHR ''4'' \<and>
   to_lower CHR ''5'' = CHR ''5'' \<and> to_lower CHR ''6'' = CHR ''6'' \<and> to_lower CHR ''7'' = CHR ''7'' \<and>
   to_lower CHR ''8'' = CHR ''8'' \<and> to_lower CHR ''9'' = CHR ''9'' \<and> to_lower CHR '' '' = CHR '' '' \<and>
   to_lower CHR ''.'' = CHR ''.'' \<and> to_lower CHR '':'' = CHR '':'' \<and> to_lower CHR '','' = CHR '','' \<and>
   to_lower CHR ''*'' = CHR ''*'' \<and> to_lower CHR ''#'' = CHR ''#'' \<and> to_lower CHR ''-'' = CHR ''-'' \<and>
   to_lower CHR ''_'' = CHR ''_'' \<and> to_lower CHR ''/'' = CHR ''/'' \<and> to_lower CHR ''('' = CHR ''('' \<and>
   to_lower CHR '')'' = CHR '')'' \<and> to_lower (CHR 0x0A) = CHR 0x0A"
  unfolding to_lower_def lower_table by simp_all

lemma to_lower_id: "c \<notin> set uppercase \<Longrightarrow> to_lower c = c"
proof -
  assume "c \<notin> set uppercase"
  moreover have "length uppercase = length lowercase"
    by (simp add: uppercase_def lowercase_def)
  ultimately have "map_of (zip uppercase lowercase) c = None"
    by (simp add: map_of_zip_is_None)
  then show ?thesis by (simp add: to_lower_def)
qed

lemma class_not_upper:
  "is_space c \<or> is_digit c \<or> c = CHR '':'' \<Longrightarrow> c \<notin> set uppercase"
  unfolding is_space_def is_digit_def uppercase_def by auto

lemma class_not_letter:
  "is_space c \<or> is_digit c \<or> c = CHR '':'' \<Longrightarrow>
     c \<noteq> CHR ''a'' \<and> c \<noteq> CHR ''r'' \<and> c \<noteq> CHR ''i''"
  unfolding is_space_def is_digit_def by auto

lemma class_chars:
  "is_space c \<or> is_digit c \<or> c = CHR '':'' \<Longrightarrow>
   to_lower c = c \<and> c \<noteq> CHR ''a'' \<and> c \<noteq> CHR ''r'' \<and> c \<noteq> CHR ''i''"
  using to_lower_id class_not_upper class_not_letter by blast

lemma space_not_digit: "is_space c \<Longrightarrow> \<not> is_digit c"
  unfolding is_space_def is_digit_def by auto

lemma digit_not_space: "is_digit c \<Longrightarrow> \<not> is_space c"
  unfolding is_space_def is_digit_def by auto

lemma digit_not_colon: "is_digit c \<Longrightarrow> c \<noteq> CHR '':''"
  unfolding is_digit_def by auto

lemma lower_Area: "map to_lower ''Area'' = ''area''"
  unfolding to_lower_def uppercase_def lowercase_def by simp

lemma lower_Impacted_Area: "map to_lower ''Impacted Area'' = ''impacted area''"
  unfolding to_lower_def uppercase_def lowercase_def by simp

lemma match_area_heading_SomeD:
  assumes "match_area_heading s = Some (n, u)"
  shows "\<exists>l ws ds rest. s = l @ ws @ ds @ CHR '':'' # rest \<and> lower l = ''area'' \<and>
       ws \<noteq> [] \<and> list_all is_space ws \<and> ds \<noteq> [] \<and> list_all is_digit ds \<and>
       n = length (l @ ws @ ds @ '':'')"
proof -
  from assms obtain r where r: "match_literal_ci ''Area'' s = Some r"
    by (auto simp: match_area_heading_def split: option.splits)
  then obtain l where "s = l @ r" "length l = length ''Area''"
      "map to_lower l = map to_lower ''Area''"
    unfolding match_literal_ci_Some by blast
  then have l: "s = l @ r" "length l = 4" "map to_lower l = ''area''"
    by (simp_all only: lower_Area) simp
  let ?ws = "takeWhile is_space r"
  let ?r2 = "dropWhile is_space r"
  let ?ds = "takeWhile is_digit ?r2"
  let ?r3 = "dropWhile is_digit ?r2"
  from assms r have ne: "?ws \<noteq> []" "?ds \<noteq> []"
    and rest: "\<exists>t. ?r3 = CHR '':'' # t" and n: "n = 4 + length ?ws + length ?ds + 1"
    by (auto simp: match_area_heading_def Let_def split: if_splits list.splits)
  from rest obtain t where t: "?r3 = CHR '':'' # t" by blast
  have "r = ?ws @ ?ds @ ?r3" by simp
  with t l have s: "s = l @ ?ws @ ?ds @ CHR '':'' # t" by simp
  have cls: "list_all is_space ?ws" "list_all is_digit ?ds"
    by (auto simp: list_all_iff dest: set_takeWhileD)
  have len: "n = length (l @ ?ws @ ?ds @ '':'')" using n l by simp
  have "s = l @ ?ws @ ?ds @ CHR '':'' # t \<and> lower l = ''area'' \<and>
       ?ws \<noteq> [] \<and> list_all is_space ?ws \<and> ?ds \<noteq> [] \<and> list_all is_digit ?ds \<and>
       n = length (l @ ?ws @ ?ds @ '':'')"
    using s l(3) ne cls len unfolding lower_def by (intro conjI)
  then show ?thesis by (intro exI)
qed

lemma match_area_heading_SomeI:
  assumes "lower l = ''area''" "ws \<noteq> []" "list_all is_space ws" "ds \<noteq> []" "list_all is_digit ds"
  shows "match_area_heading (l @ ws @ ds @ CHR '':'' # rest) = Some (length (l @ ws @ ds @ '':''), ())"
proof -
  let ?r = "ws @ ds @ CHR '':'' # rest"
  have "length (lower l) = 4" by (simp only: assms(1)) simp
  then have len: "length l = 4" by (simp add: lower_def)
  have lit: "match_literal_ci ''Area'' (l @ ?r) = Some ?r"
    unfolding match_literal_ci_Some using assms(1) len by (simp only: lower_Area lower_def) simp
  from assms(4) obtain d ds' where ds: "ds = d # ds'" by (cases ds) auto
  have d: "is_digit d" using assms(5) ds by simp
  have tw: "takeWhile is_space ?r = ws"
    using assms(3) d by (simp add: takeWhile_append2 list_all_iff ds digit_not_space)
  have dw: "dropWhile is_space ?r = ds @ CHR '':'' # rest"
    using assms(3) d by (simp add: dropWhile_append2 list_all_iff ds digit_not_space)
  have tw2: "takeWhile is_digit (ds @ CHR '':'' # rest) = ds"
    using assms(5) digit_not_colon by (auto simp add: takeWhile_append2 list_all_iff)
  have dw2: "dropWhile is_digit (ds @ CHR '':'' # rest) = CHR '':'' # rest"
    using assms(5) digit_not_colon by (auto simp add: dropWhile_append2 list_all_iff)
  show ?thesis
    unfolding match_area_heading_def using lit assms(2,4) len
    by (simp add: tw dw tw2 dw2 Let_def)
qed

lemma match_area_heading_iff:
  "match_area_heading s \<noteq> None \<longleftrightarrow> (\<exists>h. is_area_heading h \<and> prefix h s)"
proof
  assume "match_area_heading s \<noteq> None"
  then obtain n u where "match_area_heading s = Some (n, u)" by auto
  from match_area_heading_SomeD [OF this] show "\<exists>h. is_area_heading h \<and> prefix h s"
    unfolding is_area_heading_def prefix_def
    by (metis append.assoc append_Cons append_Nil)
next
  assume "\<exists>h. is_area_heading h \<and> prefix h s"
  then obtain l ws ds rest where "s = l @ ws @ ds @ CHR '':'' # rest" "lower l = ''area''"
    "ws \<noteq> []" "list_all is_space ws" "ds \<noteq> []" "list_all is_digit ds"
    unfolding is_area_heading_def prefix_def by auto
  with match_area_heading_SomeI show "match_area_heading s \<noteq> None" by auto
qed

lemma drop_ConsD: "drop k s = c # t \<Longrightarrow> k < length s \<and> s ! k = c"
  by (metis drop_all list.distinct(1) not_less nth_via_drop)

lemma nth_middle:
  "length l \<le> k \<Longrightarrow> k - length l < length m \<Longrightarrow> (l @ m @ r) ! k = m ! (k - length l)"
  by (simp add: nth_append)

lemma match_literal_ci_first:
  "match_literal_ci (p # ps) s = Some r \<Longrightarrow> \<exists>c t. s = c # t \<and> to_lower c = to_lower p \<and> match_literal_ci ps t = Some r"
  by (cases s) (auto split: if_splits)

lemma to_lower_A: "to_lower CHR ''A'' = CHR ''a''"
  unfolding to_lower_def uppercase_def lowercase_def by simp

lemma to_lower_I: "to_lower CHR ''I'' = CHR ''i''"
  unfolding to_lower_def uppercase_def lowercase_def by simp

lemma to_lower_r: "to_lower CHR ''r'' = CHR ''r''"
  unfolding to_lower_def uppercase_def lowercase_def by simp

lemma match_area_heading_first:
  assumes "match_area_heading s \<noteq> None"
  shows "\<exists>c d t. s = c # d # t \<and> to_lower c = CHR ''a'' \<and> to_lower d = CHR ''r''"
proof -
  from assms obtain r where "match_literal_ci ''Area'' s = Some r"
    by (auto simp: match_area_heading_def split: option.splits)
  then obtain c t where c: "s = c # t" "to_lower c = to_lower CHR ''A''"
      and "match_literal_ci ''rea'' t = Some r"
    using match_literal_ci_first by blast
  then obtain d u where "t = d # u" "to_lower d = to_lower CHR ''r''"
    using match_literal_ci_first by blast
  with c show ?thesis by (simp add: to_lower_A to_lower_r)
qed

lemma match_impacted_area_first:
  assumes "match_impacted_area s \<noteq> None"
  shows "\<exists>c t. s = c # t \<and> to_lower c = CHR ''i''"
proof -
  from assms obtain r where "match_literal_ci ''Impacted Area'' s = Some r"
    by (auto simp: match_impacted_area_def split: option.splits)
  then obtain c t where c: "s = c # t" "to_lower c = to_lower CHR ''I''"
    using match_literal_ci_first by blast
  then show ?thesis by (simp add: to_lower_I)
qed

lemma no_overlap_area_heading: "no_overlap match_area_heading"
  unfolding no_overlap_def
proof (intro allI impI)
  fix s n u
  assume "match_area_heading s = Some (n, u)"
  from match_area_heading_SomeD [OF this]
  obtain l ws ds rest where s: "s = l @ ws @ ds @ CHR '':'' # rest" and l: "lower l = ''area''"
    and ws: "ws \<noteq> []" "list_all is_space ws" and ds: "ds \<noteq> []" "list_all is_digit ds"
    and n: "n = length (l @ ws @ ds @ '':'')"
    by blast
  from l obtain z1 z2 z3 z4 where l4: "l = [z1, z2, z3, z4]"
    and z: "to_lower z1 = CHR ''a''" "to_lower z2 = CHR ''r''" "to_lower z3 = CHR ''e''"
           "to_lower z4 = CHR ''a''"
    by (auto simp: lower_def map_eq_Cons_conv)
  let ?m = "ws @ ds @ '':''"
  have cls: "\<forall>c \<in> set ?m. is_space c \<or> is_digit c \<or> c = CHR '':''"
    using ws ds by (auto simp: list_all_iff)
  have s': "s = l @ ?m @ rest" using s by simp
  have free: "match_area_heading (drop k s) = None" if k: "0 < k" "k < n" for k
  proof (rule ccontr)
    assume "match_area_heading (drop k s) \<noteq> None"
    from match_area_heading_first [OF this]
    obtain c d t where dk: "drop k s = c # d # t" and c: "to_lower c = CHR ''a''"
      and d: "to_lower d = CHR ''r''" by blast
    from drop_ConsD [OF dk] have ck: "s ! k = c" by simp
    have "drop (Suc k) s = tl (drop k s)" by (simp add: drop_Suc tl_drop)
    with dk have "drop (Suc k) s = d # t" by simp
    from drop_ConsD [OF this] have dk1: "s ! Suc k = d" by simp
    show False
    proof (cases "k < 4")
      case True
      with k consider "k = 1" | "k = 2" | "k = 3" by linarith
      then show False
      proof cases
        case 1
        with ck s' l4 have "c = z2" by simp
        with c z show False by simp
      next
        case 2
        with ck s' l4 have "c = z3" by (simp add: numeral_2_eq_2)
        with c z show False by simp
      next
        case 3
        obtain w ws' where w: "ws = w # ws'" using ws(1) by (cases ws) auto
        with dk1 3 s l4 have "d = w" by (simp add: numeral_3_eq_3)
        moreover have "is_space w" using ws(2) w by simp
        ultimately show False using d class_chars [of d] by auto
      qed
    next
      case False
      then have lk: "length l \<le> k" "k - length l < length ?m" using k n l4 by simp_all
      then have "?m ! (k - length l) \<in> set ?m" by (intro nth_mem)
      moreover have "s ! k = ?m ! (k - length l)"
        unfolding s' using lk by (rule nth_middle)
      ultimately have "c \<in> set ?m" using ck by simp
      with cls c class_chars [of c] show False by auto
    qed
  qed
  have "0 < n" "n \<le> length s" using n s by simp_all
  with free
  show "0 < n \<and> n \<le> length s \<and> (\<forall>k. 0 < k \<and> k < n \<longrightarrow> match_area_heading (drop k s) = None)"
    by blast
qed

lemma match_impacted_area_SomeD:
  assumes "match_impacted_area s = Some (n, g)"
  shows "\<exists>l ws rest. s = l @ ws @ g @ rest \<and> lower l = ''impacted area'' \<and>
       ws \<noteq> [] \<and> list_all is_space ws \<and> g \<noteq> [] \<and> list_all is_digit g \<and>
       n = length (l @ ws @ g)"
proof -
  from assms obtain r where r: "match_literal_ci ''Impacted Area'' s = Some r"
    by (auto simp: match_impacted_area_def split: option.splits)
  then obtain l where "s = l @ r" "length l = length ''Impacted Area''"
      "map to_lower l = map to_lower ''Impacted Area''"
    unfolding match_literal_ci_Some by blast
  then have l: "s = l @ r" "length l = 13" "map to_lower l = ''impacted area''"
    by (simp_all only: lower_Impacted_Area) simp
  let ?ws = "takeWhile is_space r"
  let ?r2 = "dropWhile is_space r"
  let ?ds = "takeWhile is_digit ?r2"
  let ?r3 = "dropWhile is_digit ?r2"
  from assms r have ne: "?ws \<noteq> []" "?ds \<noteq> []"
    and g: "g = ?ds" and n: "n = 13 + length ?ws + length ?ds"
    by (auto simp: match_impacted_area_def Let_def split: if_splits)
  have "r = ?ws @ ?ds @ ?r3" by simp
  with l have s: "s = l @ ?ws @ ?ds @ ?r3" by simp
  have cls: "list_all is_space ?ws" "list_all is_digit ?ds"
    by (auto simp: list_all_iff dest: set_takeWhileD)
  have len: "n = length (l @ ?ws @ ?ds)" using n l by simp
  have "s = l @ ?ws @ g @ ?r3 \<and> lower l = ''impacted area'' \<and>
       ?ws \<noteq> [] \<and> list_all is_space ?ws \<and> g \<noteq> [] \<and> list_all is_digit g \<and>
       n = length (l @ ?ws @ g)"
    unfolding g using s l(3) ne cls len unfolding lower_def by (intro conjI)
  then show ?thesis by (intro exI)
qed

lemma impacted_area_tail: "\<forall>c \<in> set (tl ''impacted area''). c \<noteq> CHR ''i''"
  by simp

lemma no_overlap_impacted_area: "no_overlap match_impacted_area"
  unfolding no_overlap_def
proof (intro allI impI)
  fix s n g
  assume "match_impacted_area s = Some (n, g)"
  from match_impacted_area_SomeD [OF this]
  obtain l ws rest where s: "s = l @ ws @ g @ rest" and l: "lower l = ''impacted area''"
    and ws: "ws \<noteq> []" "list_all is_space ws" and ds: "g \<noteq> []" "list_all is_digit g"
    and n: "n = length (l @ ws @ g)"
    by blast
  have "length (lower l) = 13" by (simp only: l) simp
  then have len: "length l = 13" by (simp add: lower_def)
  let ?m = "ws @ g"
  have cls: "\<forall>c \<in> set ?m. is_space c \<or> is_digit c \<or> c = CHR '':''"
    using ws ds by (auto simp: list_all_iff)
  have s': "s = l @ ?m @ rest" using s by simp
  have free: "match_impacted_area (drop k s) = None" if k: "0 < k" "k < n" for k
  proof (rule ccontr)
    assume "match_impacted_area (drop k s) \<noteq> None"
    from match_impacted_area_first [OF this]
    obtain c t where dk: "drop k s = c # t" and c: "to_lower c = CHR ''i''" by blast
    from drop_ConsD [OF dk] have ck: "s ! k = c" by simp
    show False
    proof (cases "k < 13")
      case True
      then have "s ! k = l ! k" unfolding s' using len by (simp add: nth_append)
      then have "to_lower c = lower l ! k" using ck True len by (simp add: lower_def)
      also have "\<dots> = tl (lower l) ! (k - 1)" using k True len
        by (simp add: nth_tl lower_def)
      also have "\<dots> \<in> set (tl (lower l))"
        using k True len by (intro nth_mem) (simp add: lower_def)
      finally have "to_lower c \<in> set (tl ''impacted area'')" by (simp only: l)
      with impacted_area_tail c show False by blast
    next
      case False
      then have lk: "length l \<le> k" "k - length l < length ?m" using k n len by simp_all
      then have "?m ! (k - length l) \<in> set ?m" by (intro nth_mem)
      moreover have "s ! k = ?m ! (k - length l)"
        unfolding s' using lk by (rule nth_middle)
      ultimately have "c \<in> set ?m" using ck by simp
      with cls c class_chars [of c] show False by auto
    qed
  qed
  have "0 < n" "n \<le> length s" using n s ws by simp_all
  with free
  show "0 < n \<and> n \<le> length s \<and> (\<forall>k. 0 < k \<and> k < n \<longrightarrow> match_impacted_area (drop k s) = None)"
    by blast
qed

lemma all_matches_positions:
  "map fst (all_matches m pos s) =
   map (\<lambda>i. pos + i) (filter (\<lambda>i. m (drop i s) \<noteq> None) [0..<length s])"
proof (induction s arbitrary: pos)
  case Nil
  then show ?case by simp
next
  case (Cons c t)
  have upt: "[0..<length (c # t)] = 0 # map Suc [0..<length t]"
    by (simp add: upt_conv_Cons map_Suc_upt del: upt_Suc)
  have "map fst (all_matches m (Suc pos) t) =
        map (\<lambda>i. pos + i) (map Suc (filter (\<lambda>i. m (drop i t) \<noteq> None) [0..<length t]))"
    using Cons.IH [of "Suc pos"] by simp
  then show ?case
    unfolding upt by (auto simp: filter_map comp_def split: option.splits)
qed

section \<open>Thermal-reading deduplication in the generator (ddr\_generator.py)\<close>

text \<open>
  \<^verbatim>\<open>ThermalFinding\<close> and \<^verbatim>\<open>InspectionFinding\<close> are the pydantic models of schemas.py;
  all their fields are strings.
\<close>

record thermal_finding =
  image_id :: string
  temperature_reading :: string
  thermal_interpretation :: string

record inspection_finding =
  area :: string
  observation :: string
  severity_indicator :: string
  possible_cause :: string

text \<open>
  The dictionary \<^verbatim>\<open>unique_thermal\<close> is an association list in insertion order, which is
  the order \<^verbatim>\<open>list(unique_thermal.values())\<close> reads it in. One iteration of the loop
  \<^verbatim>\<open>for item in thermal_findings\<close>:
\<close>

definition unique_thermal_step ::
  "(string \<times> thermal_finding) list \<Rightarrow> thermal_finding \<Rightarrow> (string \<times> thermal_finding) list" where
  "unique_thermal_step unique_thermal item =
     (if map_of unique_thermal (image_id item) = None
      then unique_thermal @ [(image_id item, item)]
      else unique_thermal)"

definition dedup_thermal :: "thermal_finding list \<Rightarrow> thermal_finding list" where
  "dedup_thermal thermal_findings = map snd (foldl unique_thermal_step [] thermal_findings)"

lemma unique_thermal_keys:
  "\<forall>p \<in> set acc. fst p = image_id (snd p) \<Longrightarrow>
   \<forall>p \<in> set (foldl unique_thermal_step acc xs). fst p = image_id (snd p)"
proof (induction xs arbitrary: acc)
  case Nil
  then show ?case by simp
next
  case (Cons x xs)
  have "\<forall>p \<in> set (unique_thermal_step acc x). fst p = image_id (snd p)"
    using Cons.prems by (auto simp: unique_thermal_step_def)
  from Cons.IH [OF this] show ?case by simp
qed

lemma unique_thermal_distinct:
  "distinct (map fst acc) \<Longrightarrow> distinct (map fst (foldl unique_thermal_step acc xs))"
proof (induction xs arbitrary: acc)
  case Nil
  then show ?case by simp
next
  case (Cons x xs)
  have "distinct (map fst (unique_thermal_step acc x))"
    using Cons.prems by (auto simp: unique_thermal_step_def map_of_eq_None_iff)
  then show ?case using Cons.IH by simp
qed

lemma unique_thermal_set:
  "fst ` set (foldl unique_thermal_step acc xs) = fst ` set acc \<union> image_id ` set xs"
proof (induction xs arbitrary: acc)
  case Nil
  then show ?case by simp
next
  case (Cons x xs)
  have "fst ` set (unique_thermal_step acc x) = insert (image_id x) (fst ` set acc)"
    by (auto simp: unique_thermal_step_def map_of_eq_None_iff)
  then show ?case using Cons.IH [of "unique_thermal_step acc x"] by auto
qed

lemma unique_thermal_first:
  "\<forall>p \<in> set acc. fst p = image_id (snd p) \<Longrightarrow>
   p \<in> set (foldl unique_thermal_step acc xs) \<Longrightarrow>
   p \<in> set acc \<or> (fst p \<notin> fst ` set acc \<and> find (\<lambda>x. image_id x = fst p) xs = Some (snd p))"
proof (induction xs arbitrary: acc)
  case Nil
  then show ?case by simp
next
  case (Cons x xs)
  let ?acc = "unique_thermal_step acc x"
  have keys: "\<forall>p \<in> set ?acc. fst p = image_id (snd p)"
    using Cons.prems(1) by (auto simp: unique_thermal_step_def)
  from Cons.IH [OF keys Cons.prems(2) [simplified]]
  consider "p \<in> set ?acc"
    | "fst p \<notin> fst ` set ?acc" "find (\<lambda>x. image_id x = fst p) xs = Some (snd p)"
    by blast
  then show ?case
  proof cases
    case 1
    show ?thesis
    proof (cases "p \<in> set acc")
      case True
      then show ?thesis by simp
    next
      case False
      with 1 have p: "p = (image_id x, x)" and n: "map_of acc (image_id x) = None"
        by (auto simp: unique_thermal_step_def split: if_splits)
      from n have "fst p \<notin> fst ` set acc"
        by (simp add: p map_of_eq_None_iff)
      then show ?thesis by (simp add: p)
    qed
  next
    case 2
    have "fst ` set ?acc = insert (image_id x) (fst ` set acc)"
      by (auto simp: unique_thermal_step_def map_of_eq_None_iff)
    with 2 show ?thesis by auto
  qed
qed

lemma dedup_thermal_ids_distinct: "distinct (map image_id (dedup_thermal xs))"
proof -
  have k: "\<forall>p \<in> set (foldl unique_thermal_step [] xs). fst p = image_id (snd p)"
    by (rule unique_thermal_keys) simp
  then have "map image_id (dedup_thermal xs) = map fst (foldl unique_thermal_step [] xs)"
    by (simp add: dedup_thermal_def)
  then show ?thesis using unique_thermal_distinct [of "[]" xs] by simp
qed

lemma dedup_thermal_ids_set: "set (map image_id (dedup_thermal xs)) = image_id ` set xs"
proof -
  have k: "\<forall>p \<in> set (foldl unique_thermal_step [] xs). fst p = image_id (snd p)"
    by (rule unique_thermal_keys) simp
  then have "map image_id (dedup_thermal xs) = map fst (foldl unique_thermal_step [] xs)"
    by (simp add: dedup_thermal_def)
  then show ?thesis using unique_thermal_set [of "[]" xs] by simp
qed

lemma dedup_thermal_length: "length (dedup_thermal xs) = card (image_id ` set xs)"
proof -
  have "card (image_id ` set xs) = card (set (map image_id (dedup_thermal xs)))"
    by (simp only: dedup_thermal_ids_set)
  also have "\<dots> = length (map image_id (dedup_thermal xs))"
    by (rule distinct_card) (rule dedup_thermal_ids_distinct)
  finally show ?thesis by simp
qed

lemma dedup_thermal_first:
  assumes "r \<in> set (dedup_thermal xs)"
  shows "find (\<lambda>x. image_id x = image_id r) xs = Some r"
proof -
  have k: "\<forall>p \<in> set (foldl unique_thermal_step [] xs). fst p = image_id (snd p)"
    by (rule unique_thermal_keys) simp
  from assms obtain p where p: "p \<in> set (foldl unique_thermal_step [] xs)" "snd p = r"
    by (auto simp: dedup_thermal_def)
  from unique_thermal_first [OF _ p(1)] have "find (\<lambda>x. image_id x = fst p) xs = Some (snd p)"
    by simp
  with k p show ?thesis by auto
qed

section \<open>The generator and its entity lock (ddr\_generator.py)\<close>

text \<open>
  The two errors \<^verbatim>\<open>generate_ddr\<close> can end in: the failed \<^verbatim>\<open>assert\<close>, whose message
  names the thermal count and the number of distinct image ids, and the \<^verbatim>\<open>ValueError\<close>
  of \<^verbatim>\<open>_validate_entity_count\<close>, whose message names the expected and the found number
  of areas.
\<close>

datatype generator_error =
  AssertionError nat nat
  | EntityLockViolation int nat

definition findall_area_headings :: "string \<Rightarrow> (nat \<times> unit) list" where
  "findall_area_headings ddr_text = re_scan match_area_heading 0 ddr_text"

definition validate_entity_count :: "string \<Rightarrow> int \<Rightarrow> generator_error + unit" where
  "validate_entity_count ddr_text expected_count =
     (let actual_count = length (findall_area_headings ddr_text)
      in if int actual_count \<noteq> expected_count
         then Inl (EntityLockViolation expected_count actual_count)
         else Inr ())"

text \<open>
  \<^verbatim>\<open>generate_ddr\<close>. The call of the hosted model is the parameter \<open>client\<close>: the model
  answers with some text, given what the prompt carries (the two counts and the
  findings). A call that fails raises before any verification takes place and is not
  part of the model. The argument \<^verbatim>\<open>validation_results\<close> is not read by the source.
\<close>

definition generate_ddr ::
  "(nat \<Rightarrow> nat \<Rightarrow> inspection_finding list \<Rightarrow> thermal_finding list \<Rightarrow> string) \<Rightarrow>
   inspection_finding list \<Rightarrow> thermal_finding list \<Rightarrow> generator_error + string" where
  "generate_ddr client inspection_findings thermal_findings =
     (let thermal_findings = dedup_thermal thermal_findings;
          thermal_count = length thermal_findings;
          unique_image_ids = card (set (map image_id thermal_findings))
      in if thermal_count \<noteq> unique_image_ids
         then Inl (AssertionError thermal_count unique_image_ids)
         else
           let area_count = length inspection_findings;
               ddr_text = client area_count thermal_count inspection_findings thermal_findings
           in case validate_entity_count ddr_text (int area_count) of
                Inl e \<Rightarrow> Inl e
              | Inr _ \<Rightarrow> Inr ddr_text)"

lemma match_area_heading_Nil: "match_area_heading [] = None"
  by (simp add: match_area_heading_def)

lemma heading_positions_filter:
  "heading_positions text =
   set (filter (\<lambda>i. match_area_heading (drop i text) \<noteq> None) [0..<length text])"
proof -
  have "match_area_heading (drop i text) \<noteq> None \<Longrightarrow> i < length text" for i
    by (rule ccontr) (simp add: match_area_heading_Nil)
  then show ?thesis
    unfolding heading_positions_def match_area_heading_iff [symmetric] by auto
qed

lemma findall_area_headings_count:
  "length (findall_area_headings text) = card (heading_positions text)"
proof -
  let ?ps = "filter (\<lambda>i. match_area_heading (drop i text) \<noteq> None) [0..<length text]"
  have "map fst (findall_area_headings text) = map (\<lambda>i. 0 + i) ?ps"
    unfolding findall_area_headings_def re_scan_all_matches [OF no_overlap_area_heading]
    by (rule all_matches_positions)
  then have "length (findall_area_headings text) = length ?ps"
    by (metis length_map)
  also have "\<dots> = card (set ?ps)"
    by (rule distinct_card [symmetric]) (rule distinct_filter, rule distinct_upt)
  finally show ?thesis by (simp only: heading_positions_filter)
qed

lemma dedup_thermal_assertion:
  "length (dedup_thermal xs) = card (set (map image_id (dedup_thermal xs)))"
  using distinct_card [OF dedup_thermal_ids_distinct, of xs] by simp

text \<open>
  C9. Readings that share an image id collapse to one reading, the first of them in the
  input; the number of readings kept is the number of distinct image ids of the input;
  and the assertion of \<^verbatim>\<open>generate_ddr\<close> that compares the two numbers never fails.
\<close>

theorem thermal_dedup_first_occurrence_wins:
  "distinct (map image_id (dedup_thermal thermal_findings)) \<and>
   length (dedup_thermal thermal_findings) = card (image_id ` set thermal_findings) \<and>
   (\<forall>r \<in> set (dedup_thermal thermal_findings).
      find (\<lambda>x. image_id x = image_id r) thermal_findings = Some r) \<and>
   (\<forall>client inspection_findings c u.
      generate_ddr client inspection_findings thermal_findings \<noteq> Inl (AssertionError c u))"
proof (intro conjI)
  show "distinct (map image_id (dedup_thermal thermal_findings))"
    by (rule dedup_thermal_ids_distinct)
  show "length (dedup_thermal thermal_findings) = card (image_id ` set thermal_findings)"
    by (rule dedup_thermal_length)
  show "\<forall>r \<in> set (dedup_thermal thermal_findings).
      find (\<lambda>x. image_id x = image_id r) thermal_findings = Some r"
    using dedup_thermal_first by blast
  show "\<forall>client inspection_findings c u.
      generate_ddr client inspection_findings thermal_findings \<noteq> Inl (AssertionError c u)"
    using dedup_thermal_assertion [of thermal_findings]
    by (auto simp: generate_ddr_def Let_def validate_entity_count_def split: sum.splits)
qed

theorem thermal_dedup_first_occurrence_wins_witness:
  "dedup_thermal
     [\<lparr>image_id = ''A.JPG'', temperature_reading = ''Hot: 28.8'', thermal_interpretation = ''x''\<rparr>,
      \<lparr>image_id = ''A.JPG'', temperature_reading = ''Hot: 30.1'', thermal_interpretation = ''y''\<rparr>] =
     [\<lparr>image_id = ''A.JPG'', temperature_reading = ''Hot: 28.8'', thermal_interpretation = ''x''\<rparr>] \<and>
   card (image_id `
     set [\<lparr>image_id = ''A.JPG'', temperature_reading = ''Hot: 28.8'', thermal_interpretation = ''x''\<rparr>,
          \<lparr>image_id = ''A.JPG'', temperature_reading = ''Hot: 30.1'', thermal_interpretation = ''y''\<rparr>]) = 1 \<and>
   find (\<lambda>x. image_id x = ''A.JPG'')
     [\<lparr>image_id = ''A.JPG'', temperature_reading = ''Hot: 28.8'', thermal_interpretation = ''x''\<rparr>,
      \<lparr>image_id = ''A.JPG'', temperature_reading = ''Hot: 30.1'', thermal_interpretation = ''y''\<rparr>] =
     Some \<lparr>image_id = ''A.JPG'', temperature_reading = ''Hot: 28.8'', thermal_interpretation = ''x''\<rparr>"
  using thermal_dedup_first_occurrence_wins
    [of "[\<lparr>image_id = ''A.JPG'', temperature_reading = ''Hot: 28.8'', thermal_interpretation = ''x''\<rparr>,
          \<lparr>image_id = ''A.JPG'', temperature_reading = ''Hot: 30.1'', thermal_interpretation = ''y''\<rparr>]"]
  by (simp add: dedup_thermal_def unique_thermal_step_def)

text \<open>
  C1. Verification passes exactly when the number of positions of the text at which a
  heading \<^verbatim>\<open>Area <integer>:\<close> stands equals the expected count; otherwise it fails with
  the violation that carries the expected and the found count. \<^verbatim>\<open>generate_ddr\<close> returns
  the model's text, unchanged, exactly in the first case.
\<close>

theorem entity_lock_verification:
  "validate_entity_count ddr_text expected_count =
     (if int (card (heading_positions ddr_text)) = expected_count then Inr ()
      else Inl (EntityLockViolation expected_count (card (heading_positions ddr_text)))) \<and>
   generate_ddr client inspection_findings thermal_findings =
     (let ddr_text = client (length inspection_findings) (length (dedup_thermal thermal_findings))
                       inspection_findings (dedup_thermal thermal_findings)
      in if card (heading_positions ddr_text) = length inspection_findings then Inr ddr_text
         else Inl (EntityLockViolation (int (length inspection_findings))
                     (card (heading_positions ddr_text))))"
proof
  show v: "validate_entity_count ddr_text expected_count =
     (if int (card (heading_positions ddr_text)) = expected_count then Inr ()
      else Inl (EntityLockViolation expected_count (card (heading_positions ddr_text))))"
    for ddr_text expected_count
    by (simp add: validate_entity_count_def findall_area_headings_count)
  show "generate_ddr client inspection_findings thermal_findings =
     (let ddr_text = client (length inspection_findings) (length (dedup_thermal thermal_findings))
                       inspection_findings (dedup_thermal thermal_findings)
      in if card (heading_positions ddr_text) = length inspection_findings then Inr ddr_text
         else Inl (EntityLockViolation (int (length inspection_findings))
                     (card (heading_positions ddr_text))))"
    using dedup_thermal_assertion [of thermal_findings]
    by (simp add: generate_ddr_def Let_def v)
qed

theorem entity_lock_verification_witness:
  "card (heading_positions ''## 2. Findings **Area 1: Hall** damp **AREA  2: Kitchen** ok'') = 2 \<and>
   validate_entity_count ''## 2. Findings **Area 1: Hall** damp **AREA  2: Kitchen** ok'' 3 =
     Inl (EntityLockViolation 3 2) \<and>
   validate_entity_count ''## 2. Findings **Area 1: Hall** damp **AREA  2: Kitchen** ok'' 2 = Inr ()"
proof -
  let ?t = "''## 2. Findings **Area 1: Hall** damp **AREA  2: Kitchen** ok''"
  have n: "length (findall_area_headings ?t) = 2"
    by (simp add: findall_area_headings_def re_scan.simps
        match_area_heading_def to_lower_ascii is_space_def is_digit_def)
  then have e: "validate_entity_count ?t 3 = Inl (EntityLockViolation 3 2)"
    by (simp add: validate_entity_count_def)
  from entity_lock_verification [of ?t 3] e
  have c: "card (heading_positions ?t) = 2"
    by (simp split: if_splits)
  from n have "validate_entity_count ?t 2 = Inr ()"
    by (simp add: validate_entity_count_def)
  with c e show ?thesis by simp
qed

section \<open>The area segmenter (area\_parser.py)\<close>

text \<open>
  The dictionaries the segmenter returns. \<^verbatim>\<open>max_areas\<close> is a count and is a natural
  number here. The segmenter ends in a \<^verbatim>\<open>ValueError\<close> in two ways. Its own, raised when
  there are more than \<^verbatim>\<open>max_areas\<close> keys, carries what its message prints: the number of
  keys, \<^verbatim>\<open>max_areas\<close>, the first 30 keys and, when there are more than 30, the total once
  more. The one \<^verbatim>\<open>int\<close> raises for a numeral that is too long carries the number of
  digits of that numeral.
\<close>

record area_section =
  area_number :: string
  area_name :: string
  text_chunk :: string

datatype segment_error =
    TooManyAreas nat nat "string list" "nat option"
  | IntegerStringTooLong nat

text \<open>
  \<^verbatim>\<open>int(x)\<close> on a non-empty string of decimal digits, which group 1 of the pattern always
  is. Python integers are unbounded, but the conversion of a string of more than
  \<^verbatim>\<open>sys.get_int_max_str_digits()\<close> digits raises \<^verbatim>\<open>ValueError\<close>; leading zeros count.
  The limit is 4300 unless the interpreter is configured otherwise, and the source does
  not configure it.
\<close>

definition digit_value :: "char \<Rightarrow> int" where
  "digit_value c = int (length (takeWhile (\<lambda>d. d \<noteq> c) ''0123456789''))"

definition decimal_value :: "string \<Rightarrow> int" where
  "decimal_value x = foldl (\<lambda>n c. 10 * n + digit_value c) 0 x"

definition int_max_str_digits :: nat where
  "int_max_str_digits = 4300"

definition py_int :: "string \<Rightarrow> segment_error + int" where
  "py_int x =
     (if length x > int_max_str_digits then Inl (IntegerStringTooLong (length x))
      else Inr (decimal_value x))"

definition finditer_impacted_area :: "string \<Rightarrow> (nat \<times> string) list" where
  "finditer_impacted_area text = re_scan match_impacted_area 0 text"

text \<open>
  The loop over the matches: \<^verbatim>\<open>unique_areas\<close> is a dictionary from the area number (the
  text of group 1) to the position of the match, in insertion order; a number that is
  already a key is skipped.
\<close>

definition unique_areas_step :: "(string \<times> nat) list \<Rightarrow> nat \<times> string \<Rightarrow> (string \<times> nat) list" where
  "unique_areas_step unique_areas m =
     (case m of (match_position, area_num) \<Rightarrow>
        if map_of unique_areas area_num \<noteq> None then unique_areas
        else unique_areas @ [(area_num, match_position)])"

text \<open>
  \<^verbatim>\<open>sorted(unique_areas.keys(), key=lambda x: int(x))\<close>. The source sorts the keys and
  looks every key up again later; a key has one value, so the items of the dictionary are
  sorted here. \<^verbatim>\<open>sorted\<close> first calls the key function on every element, in the order of
  the list and also when the list has a single element, so the first numeral that is too
  long ends the call; then it sorts by the keys, stably, as \<^const>\<open>sort_key\<close> does.
\<close>

fun key_values :: "(string \<times> nat) list \<Rightarrow> segment_error + (int \<times> (string \<times> nat)) list" where
  "key_values [] = Inr []"
| "key_values (item # items) =
     (case py_int (fst item) of
        Inl e \<Rightarrow> Inl e
      | Inr k \<Rightarrow> (case key_values items of
                   Inl e \<Rightarrow> Inl e
                 | Inr ks \<Rightarrow> Inr ((k, item) # ks)))"

definition sorted_by_int :: "(string \<times> nat) list \<Rightarrow> segment_error + (string \<times> nat) list" where
  "sorted_by_int items =
     (case key_values items of
        Inl e \<Rightarrow> Inl e
      | Inr ks \<Rightarrow> Inr (map snd (sort_key fst ks)))"

text \<open>\<^verbatim>\<open>text[start_pos:end_pos]\<close> for offsets inside the text; empty when the end is not after the start.\<close>

definition slice :: "string \<Rightarrow> nat \<Rightarrow> nat \<Rightarrow> string" where
  "slice text start_pos end_pos = take (end_pos - start_pos) (drop start_pos text)"

text \<open>The loop that builds the sections, over the sorted items.\<close>

fun build_areas :: "string \<Rightarrow> (string \<times> nat) list \<Rightarrow> area_section list" where
  "build_areas text [] = []"
| "build_areas text ((area_num, start_pos) # rest) =
     (let end_pos = (case rest of [] \<Rightarrow> length text | (next_area_num, p) # _ \<Rightarrow> p);
          text_chunk = slice text start_pos end_pos
      in \<lparr>area_number = area_num, area_name = ''Impacted Area '' @ area_num,
          text_chunk = text_chunk\<rparr> # build_areas text rest)"

definition areas_from_matches ::
  "string \<Rightarrow> nat \<Rightarrow> (nat \<times> string) list \<Rightarrow> segment_error + area_section list" where
  "areas_from_matches text max_areas matches =
     (if matches = [] then Inr []
      else
        let unique_areas = foldl unique_areas_step [] matches
        in case sorted_by_int unique_areas of
             Inl e \<Rightarrow> Inl e
           | Inr sorted_items \<Rightarrow>
               let sorted_area_nums = map fst sorted_items
               in if length sorted_area_nums > max_areas
                  then Inl (TooManyAreas (length sorted_area_nums) max_areas
                              (take 30 sorted_area_nums)
                              (if length sorted_area_nums > 30
                               then Some (length sorted_area_nums) else None))
                  else Inr (build_areas text sorted_items))"

definition extract_impacted_areas_from_text ::
  "string \<Rightarrow> nat \<Rightarrow> segment_error + area_section list" where
  "extract_impacted_areas_from_text text max_areas =
     areas_from_matches text max_areas (finditer_impacted_area text)"

text \<open>
  The markers of a text: every position at which \<^verbatim>\<open>Impacted Area <digits>\<close> stands, with
  the digits, from left to right; the numerals they carry; and the ordinals, which are
  the integers these numerals denote.
\<close>

definition markers :: "string \<Rightarrow> (nat \<times> string) list" where
  "markers text = all_matches match_impacted_area 0 text"

definition marker_numbers :: "string \<Rightarrow> string set" where
  "marker_numbers text = snd ` set (markers text)"

definition ordinal :: "nat \<times> string \<Rightarrow> int" where
  "ordinal m = decimal_value (snd m)"

definition marker_ordinals :: "string \<Rightarrow> int set" where
  "marker_ordinals text = ordinal ` set (markers text)"

text \<open>
  Two conditions on a text. No ordinal is written in two ways (as 1 and 01 would be);
  and no numeral is longer than \<^verbatim>\<open>int\<close> accepts.
\<close>

definition one_spelling :: "string \<Rightarrow> bool" where
  "one_spelling text = inj_on decimal_value (marker_numbers text)"

definition within_limit :: "string \<Rightarrow> bool" where
  "within_limit text = (\<forall>x \<in> marker_numbers text. length x \<le> int_max_str_digits)"

text \<open>A list of markers without the later markers of an ordinal already seen.\<close>

fun first_occurrences :: "(nat \<times> string) list \<Rightarrow> (nat \<times> string) list" where
  "first_occurrences [] = []"
| "first_occurrences (m # ms) =
     m # first_occurrences (filter (\<lambda>m'. ordinal m' \<noteq> ordinal m) ms)"

text \<open>The sorted items of a text whose numerals \<^verbatim>\<open>int\<close> accepts.\<close>

definition sorted_items :: "string \<Rightarrow> (string \<times> nat) list" where
  "sorted_items text =
     sort_key (\<lambda>item. decimal_value (fst item)) (foldl unique_areas_step [] (markers text))"

text \<open>
  A text in which the ordinal 1 is written in two ways: the markers are numbered 1, 1
  and 2.
\<close>

definition leading_zero_text :: string where
  "leading_zero_text = ''Impacted Area 1 a Impacted Area 01 b Impacted Area 2 c''"

subsection \<open>Properties of the segmenter\<close>

lemma finditer_markers: "finditer_impacted_area text = markers text"
  unfolding finditer_impacted_area_def markers_def
  by (rule re_scan_all_matches) (rule no_overlap_impacted_area)

lemma unique_areas_step_keys:
  "fst ` set (unique_areas_step acc m) = insert (snd m) (fst ` set acc)"
  by (cases m) (auto simp: unique_areas_step_def map_of_eq_None_iff)

lemma unique_areas_keys:
  "fst ` set (foldl unique_areas_step acc ms) = fst ` set acc \<union> snd ` set ms"
proof (induction ms arbitrary: acc)
  case Nil
  then show ?case by simp
next
  case (Cons m ms)
  show ?case
    using Cons.IH [of "unique_areas_step acc m"] by (simp add: unique_areas_step_keys)
qed

lemma unique_areas_step_distinct:
  "distinct (map fst acc) \<Longrightarrow> distinct (map fst (unique_areas_step acc m))"
  by (cases m) (auto simp: unique_areas_step_def map_of_eq_None_iff)

lemma unique_areas_distinct:
  "distinct (map fst acc) \<Longrightarrow> distinct (map fst (foldl unique_areas_step acc ms))"
proof (induction ms arbitrary: acc)
  case Nil
  then show ?case by simp
next
  case (Cons m ms)
  from Cons.IH [OF unique_areas_step_distinct [OF Cons.prems]] show ?case by simp
qed

lemma unique_areas_first:
  "item \<in> set (foldl unique_areas_step acc ms) \<Longrightarrow>
   item \<in> set acc \<or>
   (fst item \<notin> fst ` set acc \<and> find (\<lambda>m. snd m = fst item) ms = Some (snd item, fst item))"
proof (induction ms arbitrary: acc)
  case Nil
  then show ?case by simp
next
  case (Cons m ms)
  let ?acc = "unique_areas_step acc m"
  from Cons.IH [of ?acc] Cons.prems
  consider "item \<in> set ?acc"
    | "fst item \<notin> fst ` set ?acc" "find (\<lambda>m. snd m = fst item) ms = Some (snd item, fst item)"
    by auto
  then show ?case
  proof cases
    case 1
    show ?thesis
    proof (cases "item \<in> set acc")
      case True
      then show ?thesis by simp
    next
      case False
      with 1 have "item = (snd m, fst m)" and "map_of acc (snd m) = None"
        by (auto simp: unique_areas_step_def split: prod.splits if_splits)
      then show ?thesis by (simp add: map_of_eq_None_iff)
    qed
  next
    case 2
    then show ?thesis by (auto simp: unique_areas_step_keys)
  qed
qed

lemma unique_areas_skip:
  "k \<in> fst ` set acc \<Longrightarrow>
   foldl unique_areas_step acc (filter (\<lambda>m. snd m \<noteq> k) ms) = foldl unique_areas_step acc ms"
proof (induction ms arbitrary: acc)
  case Nil
  then show ?case by simp
next
  case (Cons m ms)
  have k: "k \<in> fst ` set (unique_areas_step acc m)"
    using Cons.prems by (simp add: unique_areas_step_keys)
  show ?case
  proof (cases "snd m = k")
    case True
    then have "unique_areas_step acc m = acc"
      using Cons.prems by (cases m) (auto simp: unique_areas_step_def map_of_eq_None_iff)
    with True Cons.IH [OF Cons.prems] show ?thesis by simp
  next
    case False
    with Cons.IH [OF k] show ?thesis by simp
  qed
qed

text \<open>
  Where no ordinal is written in two ways, the later markers of an ordinal are the later
  markers of its numeral, and the loop skips them.
\<close>

lemma unique_areas_first_occurrences:
  "inj_on decimal_value (snd ` set ms) \<Longrightarrow>
   foldl unique_areas_step acc (first_occurrences ms) = foldl unique_areas_step acc ms"
proof (induction ms arbitrary: acc rule: first_occurrences.induct)
  case 1
  then show ?case by simp
next
  case (2 m ms)
  let ?later = "filter (\<lambda>m'. ordinal m' \<noteq> ordinal m) ms"
  have same: "?later = filter (\<lambda>m'. snd m' \<noteq> snd m) ms"
  proof (rule filter_cong [OF refl])
    fix m' assume "m' \<in> set ms"
    then have "snd m' \<in> snd ` set (m # ms)" and "snd m \<in> snd ` set (m # ms)" by simp_all
    with "2.prems" have "decimal_value (snd m') = decimal_value (snd m) \<longleftrightarrow> snd m' = snd m"
      by (simp only: inj_on_eq_iff)
    then show "(ordinal m' \<noteq> ordinal m) = (snd m' \<noteq> snd m)"
      by (simp add: ordinal_def)
  qed
  have "snd ` set ?later \<subseteq> snd ` set (m # ms)" by auto
  with "2.prems" have "inj_on decimal_value (snd ` set ?later)"
    by (rule inj_on_subset)
  from "2.IH" [OF this, of "unique_areas_step acc m"]
  have "foldl unique_areas_step (unique_areas_step acc m) (first_occurrences ?later) =
        foldl unique_areas_step (unique_areas_step acc m) ?later" .
  also have "\<dots> = foldl unique_areas_step (unique_areas_step acc m) ms"
    unfolding same by (rule unique_areas_skip) (simp add: unique_areas_step_keys)
  finally show ?case by simp
qed

lemma first_occurrences_Nil: "first_occurrences ms = [] \<longleftrightarrow> ms = []"
  by (cases ms) simp_all

lemma areas_from_first_occurrences:
  "inj_on decimal_value (snd ` set ms) \<Longrightarrow>
   areas_from_matches text max_areas (first_occurrences ms) = areas_from_matches text max_areas ms"
  by (simp add: areas_from_matches_def unique_areas_first_occurrences first_occurrences_Nil)

lemma build_areas_numbers: "map area_number (build_areas t items) = map fst items"
  by (induction t items rule: build_areas.induct) (simp_all add: Let_def)

lemma build_areas_member:
  "a \<in> set (build_areas t items) \<Longrightarrow>
   \<exists>p e. (area_number a, p) \<in> set items \<and> text_chunk a = slice t p e \<and>
         area_name a = ''Impacted Area '' @ area_number a"
proof (induction t items rule: build_areas.induct)
  case (1 t)
  then show ?case by simp
next
  case (2 t area_num start_pos rest)
  from "2.prems" consider
    "\<exists>e. a = \<lparr>area_number = area_num, area_name = ''Impacted Area '' @ area_num,
               text_chunk = slice t start_pos e\<rparr>"
    | "a \<in> set (build_areas t rest)"
    by (auto simp: Let_def)
  then show ?case
  proof cases
    case 1
    then obtain e where a: "a = \<lparr>area_number = area_num, area_name = ''Impacted Area '' @ area_num,
               text_chunk = slice t start_pos e\<rparr>" by blast
    have "(area_number a, start_pos) \<in> set ((area_num, start_pos) # rest) \<and>
          text_chunk a = slice t start_pos e \<and>
          area_name a = ''Impacted Area '' @ area_number a"
      by (simp add: a)
    then show ?thesis by (intro exI)
  next
    case 2
    from "2.IH" [OF refl refl this] obtain p e where "(area_number a, p) \<in> set rest \<and>
          text_chunk a = slice t p e \<and> area_name a = ''Impacted Area '' @ area_number a"
      by blast
    then have "(area_number a, p) \<in> set ((area_num, start_pos) # rest) \<and>
          text_chunk a = slice t p e \<and> area_name a = ''Impacted Area '' @ area_number a"
      by simp
    then show ?thesis by (intro exI)
  qed
qed

lemma build_areas_length: "length (build_areas t items) = length items"
  using build_areas_numbers [of t items] by (metis length_map)

subsection \<open>Sorting by the integer value\<close>

lemma key_values_eq:
  "key_values items =
     (case find (\<lambda>item. int_max_str_digits < length (fst item)) items of
        Some item \<Rightarrow> Inl (IntegerStringTooLong (length (fst item)))
      | None \<Rightarrow> Inr (map (\<lambda>item. (decimal_value (fst item), item)) items))"
  by (induction items) (simp_all add: py_int_def split: option.splits)

lemma insort_key_values:
  "insort_key fst (f x, x) (map (\<lambda>y. (f y, y)) ys) = map (\<lambda>y. (f y, y)) (insort_key f x ys)"
  by (induction ys) simp_all

lemma sort_key_values:
  "sort_key fst (map (\<lambda>y. (f y, y)) xs) = map (\<lambda>y. (f y, y)) (sort_key f xs)"
  by (induction xs) (simp_all add: insort_key_values)

lemma sorted_by_int_eq:
  "sorted_by_int items =
     (case find (\<lambda>item. int_max_str_digits < length (fst item)) items of
        Some item \<Rightarrow> Inl (IntegerStringTooLong (length (fst item)))
      | None \<Rightarrow> Inr (sort_key (\<lambda>item. decimal_value (fst item)) items))"
  by (simp add: sorted_by_int_def key_values_eq sort_key_values comp_def split: option.splits)

lemma sorted_items_set: "fst ` set (sorted_items text) = marker_numbers text"
  by (simp add: sorted_items_def unique_areas_keys marker_numbers_def)

lemma sorted_items_distinct: "distinct (map fst (sorted_items text))"
proof -
  have "distinct (map fst (foldl unique_areas_step [] (markers text)))"
    by (rule unique_areas_distinct) simp
  then show ?thesis
    by (simp add: sorted_items_def distinct_map)
qed

lemma sorted_items_length: "length (sorted_items text) = card (marker_numbers text)"
proof -
  have "card (marker_numbers text) = card (set (map fst (sorted_items text)))"
    by (simp add: sorted_items_set)
  also have "\<dots> = length (map fst (sorted_items text))"
    by (rule distinct_card) (rule sorted_items_distinct)
  finally show ?thesis by simp
qed

lemma sorted_items_sorted: "sorted (map (\<lambda>item. decimal_value (fst item)) (sorted_items text))"
  by (simp add: sorted_items_def)

lemma sorted_items_first:
  assumes "item \<in> set (sorted_items text)"
  shows "find (\<lambda>m. snd m = fst item) (markers text) = Some (snd item, fst item)"
proof -
  from assms have "item \<in> set (foldl unique_areas_step [] (markers text))"
    by (simp add: sorted_items_def)
  from unique_areas_first [OF this] show ?thesis by simp
qed

lemma markers_Nil: "markers text = [] \<longleftrightarrow> marker_numbers text = {}"
  by (simp add: marker_numbers_def)

lemma marker_ordinals_numbers: "marker_ordinals text = decimal_value ` marker_numbers text"
  by (simp add: marker_ordinals_def marker_numbers_def ordinal_def image_image)

lemma one_spelling_card:
  "one_spelling text \<Longrightarrow> card (marker_numbers text) = card (marker_ordinals text)"
  by (simp add: one_spelling_def marker_ordinals_numbers card_image)

lemma within_limit_find:
  "within_limit text \<longleftrightarrow>
   find (\<lambda>item. int_max_str_digits < length (fst item))
     (foldl unique_areas_step [] (markers text)) = None"
proof -
  have "fst ` set (foldl unique_areas_step [] (markers text)) = marker_numbers text"
    by (simp add: unique_areas_keys marker_numbers_def)
  then show ?thesis
    unfolding within_limit_def by (force simp: find_None_iff not_less)
qed

text \<open>
  What the segmenter returns, in terms of the markers of the text: the error of \<^verbatim>\<open>int\<close>
  when a numeral is too long, before the number of keys is looked at; else its own error
  when there are too many keys; else the sections built from the sorted items.
\<close>

lemma extract_cases:
  assumes "within_limit text"
  shows "extract_impacted_areas_from_text text max_areas =
     (if max_areas < card (marker_numbers text)
      then Inl (TooManyAreas (card (marker_numbers text)) max_areas
                  (take 30 (map fst (sorted_items text)))
                  (if 30 < card (marker_numbers text) then Some (card (marker_numbers text))
                   else None))
      else Inr (build_areas text (sorted_items text)))"
proof (cases "markers text = []")
  case True
  then have "marker_numbers text = {}" by (simp add: markers_Nil)
  with True show ?thesis
    by (simp add: extract_impacted_areas_from_text_def finditer_markers areas_from_matches_def
        sorted_items_def)
next
  case False
  from assms have s: "sorted_by_int (foldl unique_areas_step [] (markers text)) =
      Inr (sorted_items text)"
    by (simp add: sorted_by_int_eq within_limit_find sorted_items_def)
  from False show ?thesis
    unfolding extract_impacted_areas_from_text_def finditer_markers areas_from_matches_def
    by (simp add: s sorted_items_length Let_def)
qed

lemma extract_too_long:
  assumes "\<not> within_limit text"
  shows "\<exists>x \<in> marker_numbers text. int_max_str_digits < length x \<and>
           extract_impacted_areas_from_text text max_areas =
             Inl (IntegerStringTooLong (length x))"
proof -
  let ?items = "foldl unique_areas_step [] (markers text)"
  from assms obtain item
    where f: "find (\<lambda>item. int_max_str_digits < length (fst item)) ?items = Some item"
    by (auto simp: within_limit_find)
  then have long: "int_max_str_digits < length (fst item)" and "item \<in> set ?items"
    by (auto simp: find_Some_iff)
  then have "fst item \<in> fst ` set ?items" by simp
  then have m: "fst item \<in> marker_numbers text"
    by (simp add: unique_areas_keys marker_numbers_def)
  then have "markers text \<noteq> []" by (auto simp: marker_numbers_def)
  then have "extract_impacted_areas_from_text text max_areas =
      Inl (IntegerStringTooLong (length (fst item)))"
    by (simp add: extract_impacted_areas_from_text_def finditer_markers areas_from_matches_def
        sorted_by_int_eq f)
  with m long show ?thesis by blast
qed

lemma extract_InrD:
  assumes "extract_impacted_areas_from_text text max_areas = Inr areas"
  shows "within_limit text \<and> card (marker_numbers text) \<le> max_areas \<and>
         areas = build_areas text (sorted_items text)"
proof -
  have w: "within_limit text"
  proof (rule ccontr)
    assume "\<not> within_limit text"
    from extract_too_long [OF this, of max_areas] assms show False by auto
  qed
  from assms show ?thesis
    by (simp add: w extract_cases [OF w] split: if_splits)
qed

lemma extract_sorted:
  assumes "extract_impacted_areas_from_text text max_areas = Inr areas"
  shows "sorted (map (\<lambda>a. decimal_value (area_number a)) areas)"
proof -
  from extract_InrD [OF assms] have areas: "areas = build_areas text (sorted_items text)"
    by simp
  have "map (\<lambda>a. decimal_value (area_number a)) areas =
        map decimal_value (map area_number areas)"
    by simp
  also have "\<dots> = map (\<lambda>item. decimal_value (fst item)) (sorted_items text)"
    by (simp add: areas build_areas_numbers)
  finally show ?thesis by (simp only: sorted_items_sorted)
qed

lemmas segmenter_eval =
  extract_impacted_areas_from_text_def areas_from_matches_def finditer_impacted_area_def
  re_scan.simps match_impacted_area_def to_lower_ascii is_space_def is_digit_def
  unique_areas_step_def sorted_by_int_def py_int_def int_max_str_digits_def
  decimal_value_def digit_value_def slice_def

lemma markers_example_3:
  "markers ''Impacted Area 3 c IMPACTED AREA 1 a impacted area  2 b'' =
     [(0, ''3''), (18, ''1''), (36, ''2'')]"
  by (simp add: markers_def match_impacted_area_def to_lower_ascii is_space_def is_digit_def)

lemma markers_example_dup:
  "markers ''Impacted Area 1 a Impacted Area 1 b'' = [(0, ''1''), (18, ''1'')]"
  by (simp add: markers_def match_impacted_area_def to_lower_ascii is_space_def is_digit_def)

lemma markers_leading_zero:
  "markers leading_zero_text = [(0, ''1''), (18, ''01''), (37, ''2'')]"
  by (simp add: leading_zero_text_def markers_def match_impacted_area_def to_lower_ascii
      is_space_def is_digit_def)

lemma decimal_value_examples:
  "decimal_value ''1'' = 1" "decimal_value ''01'' = 1" "decimal_value ''2'' = 2"
  "decimal_value ''3'' = 3"
  by (simp_all add: decimal_value_def digit_value_def)

lemma marker_ordinals_leading_zero: "marker_ordinals leading_zero_text = {1..2}"
  by (auto simp: marker_ordinals_def markers_leading_zero ordinal_def decimal_value_examples)

subsection \<open>Where every ordinal is written in one way\<close>

text \<open>
  For a text in which no ordinal is written in two ways and no numeral is too long: when
  the ordinals of the markers are exactly 1..N and N is at most \<^verbatim>\<open>max_areas\<close>, the
  segmenter returns N sections whose numbers read 1, 2, ..., N, wherever the markers
  stand in the text. Whenever the segmenter returns sections they are in ascending order
  of the number their digits denote, and a text with no marker gives the empty list.
\<close>

lemma segmenter_numeric_order_one_spelling:
  "(one_spelling text \<and> within_limit text \<and> marker_ordinals text = {1..int N} \<and>
      N \<le> max_areas \<longrightarrow>
      (\<exists>areas. extract_impacted_areas_from_text text max_areas = Inr areas \<and>
         length areas = N \<and> map (\<lambda>a. decimal_value (area_number a)) areas = [1..int N])) \<and>
   (\<forall>areas. extract_impacted_areas_from_text text max_areas = Inr areas \<longrightarrow>
      sorted (map (\<lambda>a. decimal_value (area_number a)) areas)) \<and>
   (marker_numbers text = {} \<longrightarrow> extract_impacted_areas_from_text text max_areas = Inr [])"
proof (intro conjI impI allI)
  assume h: "one_spelling text \<and> within_limit text \<and> marker_ordinals text = {1..int N} \<and>
      N \<le> max_areas"
  let ?areas = "build_areas text (sorted_items text)"
  let ?nums = "map fst (sorted_items text)"
  from h have inj: "inj_on decimal_value (marker_numbers text)"
    and w: "within_limit text"
    and img: "decimal_value ` marker_numbers text = {1..int N}"
    by (simp_all add: one_spelling_def marker_ordinals_numbers)
  have "card (decimal_value ` marker_numbers text) = N" by (simp only: img) simp
  with card_image [OF inj] have card: "card (marker_numbers text) = N" by simp
  with h have ex: "extract_impacted_areas_from_text text max_areas = Inr ?areas"
    by (simp add: extract_cases [OF w])
  have len: "length ?areas = N"
    by (simp add: build_areas_length sorted_items_length card)
  have "map (\<lambda>a. decimal_value (area_number a)) ?areas =
        map decimal_value (map area_number ?areas)"
    by simp
  then have keys: "map (\<lambda>a. decimal_value (area_number a)) ?areas = map decimal_value ?nums"
    by (simp only: build_areas_numbers)
  have "map decimal_value ?nums = map (\<lambda>item. decimal_value (fst item)) (sorted_items text)"
    by simp
  then have "sorted (map decimal_value ?nums)"
    by (simp only: sorted_items_sorted)
  moreover have "inj_on decimal_value (set ?nums)"
    using inj by (simp only: list.set_map sorted_items_set)
  then have "distinct (map decimal_value ?nums)"
    using sorted_items_distinct [of "text"] by (simp only: distinct_map simp_thms)
  moreover have "set (map decimal_value ?nums) = set [1..int N]"
    by (simp only: list.set_map sorted_items_set img set_upto)
  ultimately have "map decimal_value ?nums = [1..int N]"
    by (intro sorted_distinct_set_unique) simp_all
  with ex len keys
  show "\<exists>areas. extract_impacted_areas_from_text text max_areas = Inr areas \<and>
         length areas = N \<and> map (\<lambda>a. decimal_value (area_number a)) areas = [1..int N]"
    by simp
next
  fix areas
  assume "extract_impacted_areas_from_text text max_areas = Inr areas"
  then show "sorted (map (\<lambda>a. decimal_value (area_number a)) areas)" by (rule extract_sorted)
next
  assume e: "marker_numbers text = {}"
  then have w: "within_limit text" by (simp add: within_limit_def)
  from e have "sorted_items text = []"
    using sorted_items_length [of "text"] by simp
  with e show "extract_impacted_areas_from_text text max_areas = Inr []"
    by (simp add: extract_cases [OF w])
qed

lemma segmenter_numeric_order_example:
  "extract_impacted_areas_from_text
     ''Impacted Area 3 c IMPACTED AREA 1 a impacted area  2 b'' 20 =
     Inr [\<lparr>area_number = ''1'', area_name = ''Impacted Area 1'',
           text_chunk = ''IMPACTED AREA 1 a ''\<rparr>,
          \<lparr>area_number = ''2'', area_name = ''Impacted Area 2'',
           text_chunk = []\<rparr>,
          \<lparr>area_number = ''3'', area_name = ''Impacted Area 3'',
           text_chunk = ''Impacted Area 3 c IMPACTED AREA 1 a impacted area  2 b''\<rparr>]"
  by (simp add: extract_impacted_areas_from_text_def finditer_markers markers_example_3
      areas_from_matches_def unique_areas_step_def sorted_by_int_def py_int_def
      int_max_str_digits_def decimal_value_examples slice_def)

lemma segmenter_numeric_not_lexical_example:
  "extract_impacted_areas_from_text ''Impacted Area 10 x Impacted Area 9 y'' 20 =
     Inr [\<lparr>area_number = ''9'', area_name = ''Impacted Area 9'',
           text_chunk = []\<rparr>,
          \<lparr>area_number = ''10'', area_name = ''Impacted Area 10'',
           text_chunk = ''Impacted Area 10 x Impacted Area 9 y''\<rparr>]"
  by (simp add: segmenter_eval)

text \<open>
  For such a text, more than \<^verbatim>\<open>max_areas\<close> ordinals make the segmenter fail with its own
  error, which carries the number of ordinals; otherwise it returns one section for every
  ordinal, so nothing is ever cut off. A numeral that is too long makes it fail with the
  error of \<^verbatim>\<open>int\<close>, however many ordinals there are.
\<close>

lemma segmenter_overflow_one_spelling:
  "(one_spelling text \<and> within_limit text \<and> max_areas < card (marker_ordinals text) \<longrightarrow>
      (\<exists>listed total. extract_impacted_areas_from_text text max_areas =
         Inl (TooManyAreas (card (marker_ordinals text)) max_areas listed total))) \<and>
   (one_spelling text \<and> within_limit text \<and> card (marker_ordinals text) \<le> max_areas \<longrightarrow>
      (\<exists>areas. extract_impacted_areas_from_text text max_areas = Inr areas \<and>
         length areas = card (marker_ordinals text))) \<and>
   (\<not> within_limit text \<longrightarrow>
      (\<exists>digits. extract_impacted_areas_from_text text max_areas =
         Inl (IntegerStringTooLong digits) \<and> int_max_str_digits < digits))"
proof (intro conjI impI)
  assume h: "one_spelling text \<and> within_limit text \<and> max_areas < card (marker_ordinals text)"
  then have w: "within_limit text" and c: "card (marker_numbers text) = card (marker_ordinals text)"
    by (simp_all add: one_spelling_card)
  from h have "extract_impacted_areas_from_text text max_areas =
      Inl (TooManyAreas (card (marker_ordinals text)) max_areas
                  (take 30 (map fst (sorted_items text)))
                  (if 30 < card (marker_ordinals text) then Some (card (marker_ordinals text))
                   else None))"
    by (simp add: extract_cases [OF w] c)
  then show "\<exists>listed total. extract_impacted_areas_from_text text max_areas =
         Inl (TooManyAreas (card (marker_ordinals text)) max_areas listed total)"
    by (intro exI)
next
  assume h: "one_spelling text \<and> within_limit text \<and> card (marker_ordinals text) \<le> max_areas"
  then have w: "within_limit text" and c: "card (marker_numbers text) = card (marker_ordinals text)"
    by (simp_all add: one_spelling_card)
  from h have "extract_impacted_areas_from_text text max_areas =
      Inr (build_areas text (sorted_items text))"
    by (simp add: extract_cases [OF w] c)
  moreover have "length (build_areas text (sorted_items text)) = card (marker_ordinals text)"
    by (simp add: build_areas_length sorted_items_length c)
  ultimately show "\<exists>areas. extract_impacted_areas_from_text text max_areas = Inr areas \<and>
         length areas = card (marker_ordinals text)"
    by simp
next
  assume "\<not> within_limit text"
  from extract_too_long [OF this, of max_areas]
  show "\<exists>digits. extract_impacted_areas_from_text text max_areas =
         Inl (IntegerStringTooLong digits) \<and> int_max_str_digits < digits"
    by blast
qed

lemma segmenter_overflow_example:
  "extract_impacted_areas_from_text
     ''Impacted Area 3 c IMPACTED AREA 1 a impacted area  2 b'' 2 =
     Inl (TooManyAreas 3 2 [''1'', ''2'', ''3''] None)"
  by (simp add: extract_impacted_areas_from_text_def finditer_markers markers_example_3
      areas_from_matches_def unique_areas_step_def sorted_by_int_def py_int_def
      int_max_str_digits_def decimal_value_examples)

subsection \<open>A numeral that is too long\<close>

text \<open>
  A text with the single marker \<^verbatim>\<open>Impacted Area\<close> and a numeral: the segmenter finds the
  marker, and when the numeral has more than 4300 digits it ends in the error of \<^verbatim>\<open>int\<close>,
  whatever \<^verbatim>\<open>max_areas\<close> is. The numeral of 4300 zeros and a one denotes the ordinal 1.
\<close>

lemma match_impacted_area_numeral:
  assumes "ds \<noteq> []" and "list_all is_digit ds"
  shows "match_impacted_area (''Impacted Area '' @ ds) = Some (14 + length ds, ds)"
proof -
  from assms obtain d ds' where ds: "ds = d # ds'" and d: "is_digit d"
    by (cases ds) auto
  from d have nd: "\<not> is_space d" by (rule digit_not_space)
  have l: "match_literal_ci ''Impacted Area'' (''Impacted Area '' @ ds) = Some (CHR '' '' # ds)"
    by (simp add: to_lower_ascii)
  have sp: "is_space CHR '' ''" by (simp add: is_space_def)
  from nd have ws: "takeWhile is_space ds = []" and r: "dropWhile is_space ds = ds"
    by (simp_all add: ds)
  from assms(2) have t: "takeWhile is_digit ds = ds"
    by (simp add: takeWhile_eq_all_conv list_all_iff)
  show ?thesis
    unfolding match_impacted_area_def l by (simp add: sp ws r t assms(1) Let_def)
qed

lemma finditer_single_marker:
  assumes "ds \<noteq> []" and "list_all is_digit ds"
  shows "finditer_impacted_area (''Impacted Area '' @ ds) = [(0, ds)]"
proof -
  define t where "t = ''Impacted Area '' @ ds"
  have m: "match_impacted_area t = Some (14 + length ds, ds)"
    unfolding t_def by (rule match_impacted_area_numeral [OF assms])
  have len: "length t = 14 + length ds" by (simp add: t_def)
  then have ne: "t \<noteq> []" by auto
  have e: "match_impacted_area [] = None"
    by (simp add: match_impacted_area_def)
  have r: "re_scan match_impacted_area (14 + length ds) [] = []"
    by (simp add: re_scan.simps e)
  have "re_scan match_impacted_area 0 t = [(0, ds)]"
    by (subst re_scan.simps) (simp add: m ne len r)
  then show ?thesis
    by (simp only: finditer_impacted_area_def t_def)
qed

lemma extract_long_numeral:
  assumes "ds \<noteq> []" and "list_all is_digit ds" and "int_max_str_digits < length ds"
  shows "extract_impacted_areas_from_text (''Impacted Area '' @ ds) max_areas =
           Inl (IntegerStringTooLong (length ds))"
proof -
  define t where "t = ''Impacted Area '' @ ds"
  have "finditer_impacted_area t = [(0, ds)]"
    unfolding t_def by (rule finditer_single_marker [OF assms(1,2)])
  with assms(3) have "extract_impacted_areas_from_text t max_areas =
           Inl (IntegerStringTooLong (length ds))"
    by (simp add: extract_impacted_areas_from_text_def areas_from_matches_def
        unique_areas_step_def sorted_by_int_def py_int_def)
  then show ?thesis by (simp only: t_def)
qed

lemma decimal_value_leading_zeros:
  "decimal_value (replicate n CHR ''0'' @ x) = decimal_value x"
proof -
  have "foldl (\<lambda>n c. 10 * n + digit_value c) 0 (replicate n CHR ''0'') = 0"
    by (induction n) (simp_all add: digit_value_def)
  then show ?thesis by (simp add: decimal_value_def)
qed

lemma segmenter_long_numeral_example:
  "marker_ordinals (''Impacted Area '' @ replicate 4300 CHR ''0'' @ ''1'') = {1} \<and>
   extract_impacted_areas_from_text (''Impacted Area '' @ replicate 4300 CHR ''0'' @ ''1'') 20 =
     Inl (IntegerStringTooLong 4301)"
proof -
  define ds where "ds = replicate 4300 CHR ''0'' @ ''1''"
  define t where "t = ''Impacted Area '' @ ds"
  have ne: "ds \<noteq> []" by (simp add: ds_def)
  have dg: "list_all is_digit ds"
    by (simp add: ds_def list_all_iff is_digit_def)
  have len: "length ds = 4301" by (simp add: ds_def)
  have v: "decimal_value ds = 1"
    unfolding ds_def by (simp only: decimal_value_leading_zeros decimal_value_examples)
  have "markers t = [(0, ds)]"
    unfolding t_def using finditer_single_marker [OF ne dg] by (simp only: finditer_markers)
  then have o: "marker_ordinals t = {1}"
    by (simp add: marker_ordinals_def ordinal_def v)
  have "int_max_str_digits < length ds"
    by (simp add: int_max_str_digits_def len)
  from extract_long_numeral [OF ne dg this, of 20]
  have "extract_impacted_areas_from_text t 20 = Inl (IntegerStringTooLong 4301)"
    by (simp only: len t_def)
  with o show ?thesis unfolding t_def ds_def by (rule conjI)
qed

subsection \<open>An ordinal written in two ways\<close>

text \<open>
  C6. The markers of the text \<^const>\<open>leading_zero_text\<close> are numbered 1, 1 and 2 (the second
  writes 1 as 01), so its distinct ordinals are 1..2, and 2 is below \<^verbatim>\<open>max_areas\<close> = 20.
  The segmenter returns three sections, two of them for the ordinal 1: the dictionary
  \<^verbatim>\<open>unique_areas\<close> is keyed by the digits as written, while the sort compares the
  integers.
\<close>

theorem segmenter_leading_zero_sections:
  "marker_ordinals leading_zero_text = {1..2} \<and>
   extract_impacted_areas_from_text leading_zero_text 20 =
     Inr [\<lparr>area_number = ''1'', area_name = ''Impacted Area 1'',
           text_chunk = ''Impacted Area 1 a ''\<rparr>,
          \<lparr>area_number = ''01'', area_name = ''Impacted Area 01'',
           text_chunk = ''Impacted Area 01 b ''\<rparr>,
          \<lparr>area_number = ''2'', area_name = ''Impacted Area 2'',
           text_chunk = ''Impacted Area 2 c''\<rparr>]"
proof -
  have "extract_impacted_areas_from_text leading_zero_text 20 =
     Inr [\<lparr>area_number = ''1'', area_name = ''Impacted Area 1'',
           text_chunk = ''Impacted Area 1 a ''\<rparr>,
          \<lparr>area_number = ''01'', area_name = ''Impacted Area 01'',
           text_chunk = ''Impacted Area 01 b ''\<rparr>,
          \<lparr>area_number = ''2'', area_name = ''Impacted Area 2'',
           text_chunk = ''Impacted Area 2 c''\<rparr>]"
    by (simp add: extract_impacted_areas_from_text_def finditer_markers markers_leading_zero
        areas_from_matches_def unique_areas_step_def sorted_by_int_def py_int_def
        int_max_str_digits_def decimal_value_examples slice_def)
      (simp add: leading_zero_text_def)
  with marker_ordinals_leading_zero show ?thesis by (rule conjI)
qed

text \<open>
  C7. The same text has two distinct ordinals, 1 and 2. With \<^verbatim>\<open>max_areas\<close> = 1 the
  segmenter fails with its overflow error, and the count in the error is 3, the number of
  distinct numerals, not 2.
\<close>

theorem segmenter_leading_zero_count:
  "card (marker_ordinals leading_zero_text) = 2 \<and>
   extract_impacted_areas_from_text leading_zero_text 1 =
     Inl (TooManyAreas 3 1 [''1'', ''01'', ''2''] None)"
proof -
  have "card (marker_ordinals leading_zero_text) = 2"
    by (simp add: marker_ordinals_leading_zero)
  moreover have "extract_impacted_areas_from_text leading_zero_text 1 =
     Inl (TooManyAreas 3 1 [''1'', ''01'', ''2''] None)"
    by (simp add: extract_impacted_areas_from_text_def finditer_markers markers_leading_zero
        areas_from_matches_def unique_areas_step_def sorted_by_int_def py_int_def
        int_max_str_digits_def decimal_value_examples)
  ultimately show ?thesis by (rule conjI)
qed

subsection \<open>Duplicate markers\<close>

text \<open>
  C8. The claim fails in two ways. Removing the later duplicate of a marker from the text
  changes the result: the chunks are cut from the text as it is, and the duplicate stands
  inside one of them. And when a later marker writes the ordinal of an earlier one in
  another way, as 01 after 1, both markers are kept and two sections are produced for the
  one ordinal.
\<close>

theorem duplicate_marker_removal_counterexample:
  "extract_impacted_areas_from_text ''Impacted Area 1 a Impacted Area 1 b'' 20 \<noteq>
   extract_impacted_areas_from_text ''Impacted Area 1 a  b'' 20 \<and>
   decimal_value ''01'' = decimal_value ''1'' \<and>
   extract_impacted_areas_from_text ''Impacted Area 1 a Impacted Area 01 b'' 20 =
     Inr [\<lparr>area_number = ''1'', area_name = ''Impacted Area 1'',
           text_chunk = ''Impacted Area 1 a ''\<rparr>,
          \<lparr>area_number = ''01'', area_name = ''Impacted Area 01'',
           text_chunk = ''Impacted Area 01 b''\<rparr>]"
proof -
  have "extract_impacted_areas_from_text ''Impacted Area 1 a Impacted Area 1 b'' 20 \<noteq>
     extract_impacted_areas_from_text ''Impacted Area 1 a  b'' 20"
    by (simp add: segmenter_eval)
  moreover have "decimal_value ''01'' = decimal_value ''1''"
    by (simp add: decimal_value_examples)
  moreover have "extract_impacted_areas_from_text ''Impacted Area 1 a Impacted Area 01 b'' 20 =
     Inr [\<lparr>area_number = ''1'', area_name = ''Impacted Area 1'',
           text_chunk = ''Impacted Area 1 a ''\<rparr>,
          \<lparr>area_number = ''01'', area_name = ''Impacted Area 01'',
           text_chunk = ''Impacted Area 01 b''\<rparr>]"
    by (simp add: segmenter_eval)
  ultimately show ?thesis by (intro conjI)
qed

text \<open>
  C8, amended. In a text in which no ordinal is written in two ways, only the first
  marker (by position) of every ordinal counts: the result is the one computed from the
  markers with the later markers of every ordinal left out. When the segmenter returns
  sections there is exactly one for every ordinal found, and its chunk is cut from the text
  at the first marker of that ordinal; it does return sections when no numeral is too long
  and there are at most \<^verbatim>\<open>max_areas\<close> ordinals. The chunks are pieces of the unchanged
  text.
\<close>

theorem segmenter_first_occurrence_wins:
  "one_spelling text \<longrightarrow>
     extract_impacted_areas_from_text text max_areas =
       areas_from_matches text max_areas (first_occurrences (markers text)) \<and>
     (\<forall>areas. extract_impacted_areas_from_text text max_areas = Inr areas \<longrightarrow>
        distinct (map (\<lambda>a. decimal_value (area_number a)) areas) \<and>
        set (map (\<lambda>a. decimal_value (area_number a)) areas) = marker_ordinals text \<and>
        (\<forall>a \<in> set areas. \<exists>p.
           find (\<lambda>m. ordinal m = decimal_value (area_number a)) (markers text) =
             Some (p, area_number a) \<and>
           prefix (text_chunk a) (drop p text))) \<and>
     (within_limit text \<and> card (marker_ordinals text) \<le> max_areas \<longrightarrow>
        (\<exists>areas. extract_impacted_areas_from_text text max_areas = Inr areas \<and>
           length areas = card (marker_ordinals text)))"
proof
  assume one: "one_spelling text"
  then have inj: "inj_on decimal_value (marker_numbers text)"
    by (simp add: one_spelling_def)
  have first: "extract_impacted_areas_from_text text max_areas =
       areas_from_matches text max_areas (first_occurrences (markers text))"
    using inj
    by (simp add: extract_impacted_areas_from_text_def finditer_markers
        areas_from_first_occurrences marker_numbers_def)
  have each: "\<forall>areas. extract_impacted_areas_from_text text max_areas = Inr areas \<longrightarrow>
        distinct (map (\<lambda>a. decimal_value (area_number a)) areas) \<and>
        set (map (\<lambda>a. decimal_value (area_number a)) areas) = marker_ordinals text \<and>
        (\<forall>a \<in> set areas. \<exists>p.
           find (\<lambda>m. ordinal m = decimal_value (area_number a)) (markers text) =
             Some (p, area_number a) \<and>
           prefix (text_chunk a) (drop p text))"
  proof (intro allI impI)
    fix areas
    assume "extract_impacted_areas_from_text text max_areas = Inr areas"
    from extract_InrD [OF this] have areas: "areas = build_areas text (sorted_items text)"
      by simp
    have nums: "map area_number areas = map fst (sorted_items text)"
      by (simp only: areas build_areas_numbers)
    have vals: "map (\<lambda>a. decimal_value (area_number a)) areas =
        map decimal_value (map fst (sorted_items text))"
      unfolding nums [symmetric] by simp
    have "inj_on decimal_value (set (map fst (sorted_items text)))"
      using inj by (simp only: list.set_map sorted_items_set)
    then have d: "distinct (map (\<lambda>a. decimal_value (area_number a)) areas)"
      unfolding vals using sorted_items_distinct [of "text"]
      by (simp only: distinct_map simp_thms)
    have s: "set (map (\<lambda>a. decimal_value (area_number a)) areas) = marker_ordinals text"
      unfolding vals
      by (simp only: list.set_map sorted_items_set marker_ordinals_numbers)
    have c: "\<forall>a \<in> set areas. \<exists>p.
           find (\<lambda>m. ordinal m = decimal_value (area_number a)) (markers text) =
             Some (p, area_number a) \<and>
           prefix (text_chunk a) (drop p text)"
    proof
      fix a
      assume "a \<in> set areas"
      then have "a \<in> set (build_areas text (sorted_items text))" by (simp only: areas)
      from build_areas_member [OF this] obtain p e
        where item: "(area_number a, p) \<in> set (sorted_items text)"
          and chunk: "text_chunk a = slice text p e"
        by blast
      from item have "area_number a \<in> fst ` set (sorted_items text)" by force
      then have num: "area_number a \<in> marker_numbers text"
        by (simp only: sorted_items_set)
      have "find (\<lambda>m. ordinal m = decimal_value (area_number a)) (markers text) =
            find (\<lambda>m. snd m = area_number a) (markers text)"
      proof (rule find_cong [OF refl])
        fix m assume "m \<in> set (markers text)"
        then have "snd m \<in> marker_numbers text" by (simp add: marker_numbers_def)
        with inj num show "(ordinal m = decimal_value (area_number a)) = (snd m = area_number a)"
          by (simp only: ordinal_def inj_on_eq_iff)
      qed
      also from sorted_items_first [OF item] have "\<dots> = Some (p, area_number a)"
        by simp
      finally have "find (\<lambda>m. ordinal m = decimal_value (area_number a)) (markers text) =
             Some (p, area_number a)" .
      moreover have "prefix (text_chunk a) (drop p text)"
        by (simp add: chunk slice_def take_is_prefix)
      ultimately show "\<exists>p.
           find (\<lambda>m. ordinal m = decimal_value (area_number a)) (markers text) =
             Some (p, area_number a) \<and>
           prefix (text_chunk a) (drop p text)"
        by blast
    qed
    from d s c show "distinct (map (\<lambda>a. decimal_value (area_number a)) areas) \<and>
        set (map (\<lambda>a. decimal_value (area_number a)) areas) = marker_ordinals text \<and>
        (\<forall>a \<in> set areas. \<exists>p.
           find (\<lambda>m. ordinal m = decimal_value (area_number a)) (markers text) =
             Some (p, area_number a) \<and>
           prefix (text_chunk a) (drop p text))"
      by (intro conjI)
  qed
  have returns: "within_limit text \<and> card (marker_ordinals text) \<le> max_areas \<longrightarrow>
        (\<exists>areas. extract_impacted_areas_from_text text max_areas = Inr areas \<and>
           length areas = card (marker_ordinals text))"
  proof
    assume h: "within_limit text \<and> card (marker_ordinals text) \<le> max_areas"
    then have w: "within_limit text" by simp
    have c: "card (marker_numbers text) = card (marker_ordinals text)"
      using one by (rule one_spelling_card)
    from h have "extract_impacted_areas_from_text text max_areas =
        Inr (build_areas text (sorted_items text))"
      by (simp add: extract_cases [OF w] c)
    moreover have "length (build_areas text (sorted_items text)) = card (marker_ordinals text)"
      by (simp add: build_areas_length sorted_items_length c)
    ultimately show "\<exists>areas. extract_impacted_areas_from_text text max_areas = Inr areas \<and>
           length areas = card (marker_ordinals text)"
      by simp
  qed
  from first each returns
  show "extract_impacted_areas_from_text text max_areas =
       areas_from_matches text max_areas (first_occurrences (markers text)) \<and>
     (\<forall>areas. extract_impacted_areas_from_text text max_areas = Inr areas \<longrightarrow>
        distinct (map (\<lambda>a. decimal_value (area_number a)) areas) \<and>
        set (map (\<lambda>a. decimal_value (area_number a)) areas) = marker_ordinals text \<and>
        (\<forall>a \<in> set areas. \<exists>p.
           find (\<lambda>m. ordinal m = decimal_value (area_number a)) (markers text) =
             Some (p, area_number a) \<and>
           prefix (text_chunk a) (drop p text))) \<and>
     (within_limit text \<and> card (marker_ordinals text) \<le> max_areas \<longrightarrow>
        (\<exists>areas. extract_impacted_areas_from_text text max_areas = Inr areas \<and>
           length areas = card (marker_ordinals text)))"
    by (intro conjI)
qed

theorem segmenter_first_occurrence_wins_witness:
  "one_spelling ''Impacted Area 1 a Impacted Area 1 b'' \<and>
   within_limit ''Impacted Area 1 a Impacted Area 1 b'' \<and>
   card (marker_ordinals ''Impacted Area 1 a Impacted Area 1 b'') = 1 \<and>
   first_occurrences (markers ''Impacted Area 1 a Impacted Area 1 b'') = [(0, ''1'')] \<and>
   extract_impacted_areas_from_text ''Impacted Area 1 a Impacted Area 1 b'' 20 =
     areas_from_matches ''Impacted Area 1 a Impacted Area 1 b'' 20 [(0, ''1'')] \<and>
   extract_impacted_areas_from_text ''Impacted Area 1 a Impacted Area 1 b'' 20 =
     Inr [\<lparr>area_number = ''1'', area_name = ''Impacted Area 1'',
           text_chunk = ''Impacted Area 1 a Impacted Area 1 b''\<rparr>] \<and>
   find (\<lambda>m. ordinal m = 1) (markers ''Impacted Area 1 a Impacted Area 1 b'') = Some (0, ''1'')"
proof -
  let ?t = "''Impacted Area 1 a Impacted Area 1 b''"
  have n: "marker_numbers ?t = {''1''}"
    by (simp add: marker_numbers_def markers_example_dup)
  have o: "one_spelling ?t"
    by (simp add: one_spelling_def n)
  have w: "within_limit ?t"
    by (simp add: within_limit_def n int_max_str_digits_def)
  have c: "card (marker_ordinals ?t) = 1"
    by (simp add: marker_ordinals_numbers n)
  have f: "first_occurrences (markers ?t) = [(0, ''1'')]"
    by (simp add: markers_example_dup ordinal_def)
  have e: "areas_from_matches ?t 20 [(0, ''1'')] =
     Inr [\<lparr>area_number = ''1'', area_name = ''Impacted Area 1'', text_chunk = ?t\<rparr>]"
    by (simp add: areas_from_matches_def unique_areas_step_def sorted_by_int_def py_int_def
        int_max_str_digits_def decimal_value_examples slice_def)
  have d: "find (\<lambda>m. ordinal m = 1) (markers ?t) = Some (0, ''1'')"
    by (simp add: markers_example_dup ordinal_def decimal_value_examples)
  from segmenter_first_occurrence_wins [of ?t 20] o w c f e d show ?thesis
    by simp
qed

section \<open>Merging sections into areas (area\_parser.py)\<close>

text \<open>
  \<^verbatim>\<open>normalize_area\<close>: the empty name stays empty, any other name is stripped of white
  space at both ends and lower-cased.
\<close>

definition normalize_area :: "string \<Rightarrow> string" where
  "normalize_area name = (if name = [] then [] else lower (strip name))"

text \<open>
  Equality of two names after case and white-space normalization, said without the
  functions of the source. A name is a core with white space before it and after it; the
  core is empty or begins and ends with a character that is not white space. Two names
  are the same when their cores are equal up to the case of their letters.
\<close>

definition is_trimmed :: "string \<Rightarrow> bool" where
  "is_trimmed s = (s = [] \<or> (\<not> is_space (hd s) \<and> \<not> is_space (last s)))"

definition trimmed_core :: "string \<Rightarrow> string \<Rightarrow> bool" where
  "trimmed_core name core =
     (\<exists>ws ws'. name = ws @ core @ ws' \<and> list_all is_space ws \<and> list_all is_space ws' \<and>
                is_trimmed core)"

definition same_name :: "string \<Rightarrow> string \<Rightarrow> bool" where
  "same_name n n' =
     (\<exists>c c'. trimmed_core n c \<and> trimmed_core n' c' \<and> map to_lower c = map to_lower c')"

text \<open>
  The dictionary \<^verbatim>\<open>extract_descriptions_from_area_chunk\<close> returns for a chunk (its key
  \<^verbatim>\<open>area_name\<close> holds \<^verbatim>\<open>None\<close> or a string), and the dictionary \<^verbatim>\<open>room_data\<close> of an area
  (its key \<^verbatim>\<open>area_name\<close> is the field \<open>room_name\<close> here).
\<close>

record descriptions =
  extracted_name :: "string option"
  extracted_negative :: "string list"
  extracted_positive :: "string list"

record room_data =
  room_name :: string
  negative_observations :: "string list"
  positive_observations :: "string list"

text \<open>
  The state of the loop of \<^verbatim>\<open>parse_inspection_deterministically\<close>. An entry of
  \<^verbatim>\<open>seen_rooms\<close> is the very dictionary that was appended to \<^verbatim>\<open>parsed_areas\<close>, so it is
  kept as the index of that dictionary in \<^verbatim>\<open>parsed_areas\<close>; \<^verbatim>\<open>extend\<close> on it changes the
  list element.
\<close>

record parse_state =
  parsed_areas :: "room_data list"
  unnamed_count :: nat
  seen_rooms :: "string \<rightharpoonup> nat"

definition parse_init :: parse_state where
  "parse_init = \<lparr>parsed_areas = [], unnamed_count = 0, seen_rooms = Map.empty\<rparr>"

text \<open>
  One iteration, for the section \<open>sec\<close> (the loop variable \<^verbatim>\<open>area\<close>). The call of
  \<^verbatim>\<open>extract_descriptions_from_area_chunk\<close> is the parameter \<open>describe\<close>: what is proved
  of the loop holds whatever that function returns for a chunk. \<^verbatim>\<open>if room_name:\<close> holds for a non-empty string.
\<close>

definition parse_step :: "(string \<Rightarrow> descriptions) \<Rightarrow> parse_state \<Rightarrow> area_section \<Rightarrow> parse_state" where
  "parse_step describe st sec =
     (let ds = describe (text_chunk sec);
          unnamed = st\<lparr>unnamed_count := unnamed_count st + 1\<rparr>;
          (name, st) = (case extracted_name ds of
                          None \<Rightarrow> (area_name sec, unnamed)
                        | Some room \<Rightarrow> if room \<noteq> [] then (room, st)
                                       else (area_name sec, unnamed));
          normalized_key = normalize_area name
      in case seen_rooms st normalized_key of
           Some i \<Rightarrow>
             let existing = parsed_areas st ! i;
                 existing = existing\<lparr>
                   negative_observations := negative_observations existing @ extracted_negative ds,
                   positive_observations := positive_observations existing @ extracted_positive ds\<rparr>
             in st\<lparr>parsed_areas := (parsed_areas st)[i := existing]\<rparr>
         | None \<Rightarrow>
             let room = \<lparr>room_name = name,
                         negative_observations = extracted_negative ds,
                         positive_observations = extracted_positive ds\<rparr>
             in st\<lparr>parsed_areas := parsed_areas st @ [room],
                   seen_rooms := (seen_rooms st)(normalized_key \<mapsto> length (parsed_areas st))\<rparr>)"

definition parse_sections :: "(string \<Rightarrow> descriptions) \<Rightarrow> area_section list \<Rightarrow> room_data list" where
  "parse_sections describe areas = parsed_areas (foldl (parse_step describe) parse_init areas)"

definition parse_inspection_deterministically ::
  "(string \<Rightarrow> descriptions) \<Rightarrow> string \<Rightarrow> segment_error + room_data list" where
  "parse_inspection_deterministically describe text =
     (case extract_impacted_areas_from_text text 20 of
        Inl e \<Rightarrow> Inl e
      | Inr areas \<Rightarrow> Inr (parse_sections describe areas))"

text \<open>
  The name a section is filed under, its normalized label, and for a label the sections
  that carry it, in the order of the input.
\<close>

definition chosen_name :: "(string \<Rightarrow> descriptions) \<Rightarrow> area_section \<Rightarrow> string" where
  "chosen_name describe sec =
     (case extracted_name (describe (text_chunk sec)) of
        None \<Rightarrow> area_name sec
      | Some room \<Rightarrow> if room = [] then area_name sec else room)"

definition label :: "(string \<Rightarrow> descriptions) \<Rightarrow> area_section \<Rightarrow> string" where
  "label describe sec = normalize_area (chosen_name describe sec)"

definition labelled :: "(string \<Rightarrow> descriptions) \<Rightarrow> string \<Rightarrow> area_section list \<Rightarrow> area_section list" where
  "labelled describe k areas = filter (\<lambda>a. label describe a = k) areas"


definition key_of :: "room_data \<Rightarrow> string" where
  "key_of r = normalize_area (room_name r)"

text \<open>The labels of a list of sections, each once, in the order of their first section.\<close>

definition labels_in_order :: "(string \<Rightarrow> descriptions) \<Rightarrow> area_section list \<Rightarrow> string list" where
  "labels_in_order describe areas = rev (remdups (rev (map (label describe) areas)))"

text \<open>The entry of a label: named by its first section, holding the observations of all its sections.\<close>

definition entry :: "(string \<Rightarrow> descriptions) \<Rightarrow> area_section list \<Rightarrow> string \<Rightarrow> room_data" where
  "entry describe areas k =
     \<lparr>room_name = chosen_name describe (hd (labelled describe k areas)),
      negative_observations =
        concat (map (\<lambda>a. extracted_negative (describe (text_chunk a))) (labelled describe k areas)),
      positive_observations =
        concat (map (\<lambda>a. extracted_positive (describe (text_chunk a))) (labelled describe k areas))\<rparr>"

text \<open>\<^verbatim>\<open>seen_rooms\<close> holds exactly the labels of a list, each with its index.\<close>

definition tracks :: "(string \<rightharpoonup> nat) \<Rightarrow> string list \<Rightarrow> bool" where
  "tracks seen ks = (\<forall>k i. seen k = Some i \<longleftrightarrow> i < length ks \<and> ks ! i = k)"

text \<open>
  The example of the specification: three sections whose chunks describe the rooms Hall,
  Kitchen and Hall again, the last in capitals and with white space around it.
\<close>

definition example_sections :: "area_section list" where
  "example_sections =
     [\<lparr>area_number = ''1'', area_name = ''Impacted Area 1'', text_chunk = ''c1''\<rparr>,
      \<lparr>area_number = ''2'', area_name = ''Impacted Area 2'', text_chunk = ''c2''\<rparr>,
      \<lparr>area_number = ''3'', area_name = ''Impacted Area 3'', text_chunk = ''c3''\<rparr>]"

definition example_describe :: "string \<Rightarrow> descriptions" where
  "example_describe chunk =
     (if chunk = ''c1'' then
        \<lparr>extracted_name = Some ''Hall'', extracted_negative = [''Hall damp''],
         extracted_positive = []\<rparr>
      else if chunk = ''c2'' then
        \<lparr>extracted_name = Some ''Kitchen'', extracted_negative = [''Kitchen leak''],
         extracted_positive = [''tiles sound'']\<rparr>
      else
        \<lparr>extracted_name = Some ''  HALL '', extracted_negative = [''HALL crack''],
         extracted_positive = [''paint sound'']\<rparr>)"

subsection \<open>The loop computes the merged entries\<close>

lemma labels_in_order_snoc:
  "labels_in_order describe (areas @ [a]) =
     (if label describe a \<in> set (labels_in_order describe areas)
      then labels_in_order describe areas
      else labels_in_order describe areas @ [label describe a])"
  by (simp add: labels_in_order_def)

lemma labels_in_order_set: "set (labels_in_order describe areas) = label describe ` set areas"
  by (simp add: labels_in_order_def)

lemma labels_in_order_distinct: "distinct (labels_in_order describe areas)"
  by (simp add: labels_in_order_def)

lemma parse_step_eq:
  "parse_step describe st a =
     (let k = label describe a;
          st' = (if chosen_name describe a = area_name a \<and>
                    (extracted_name (describe (text_chunk a)) = None \<or>
                     extracted_name (describe (text_chunk a)) = Some [])
                 then st\<lparr>unnamed_count := unnamed_count st + 1\<rparr> else st)
      in case seen_rooms st k of
           Some i \<Rightarrow> st'\<lparr>parsed_areas := (parsed_areas st)[i := (parsed_areas st ! i)\<lparr>
               negative_observations := negative_observations (parsed_areas st ! i) @
                  extracted_negative (describe (text_chunk a)),
               positive_observations := positive_observations (parsed_areas st ! i) @
                  extracted_positive (describe (text_chunk a))\<rparr>]\<rparr>
         | None \<Rightarrow> st'\<lparr>parsed_areas := parsed_areas st @
               [\<lparr>room_name = chosen_name describe a,
                 negative_observations = extracted_negative (describe (text_chunk a)),
                 positive_observations = extracted_positive (describe (text_chunk a))\<rparr>],
             seen_rooms := (seen_rooms st)(k \<mapsto> length (parsed_areas st))\<rparr>)"
  by (auto simp: parse_step_def label_def chosen_name_def Let_def split: option.splits)

lemma labelled_snoc:
  "labelled describe k (areas @ [a]) =
     (if label describe a = k then labelled describe k areas @ [a] else labelled describe k areas)"
  by (simp add: labelled_def)

lemma labelled_Nil_iff: "labelled describe k areas = [] \<longleftrightarrow> k \<notin> label describe ` set areas"
  by (auto simp: labelled_def filter_empty_conv)

lemma entry_snoc_other:
  "label describe a \<noteq> k \<Longrightarrow> entry describe (areas @ [a]) k = entry describe areas k"
  by (simp add: entry_def labelled_snoc)

lemma entry_snoc_new:
  "k \<notin> label describe ` set areas \<Longrightarrow> label describe a = k \<Longrightarrow>
   entry describe (areas @ [a]) k =
     \<lparr>room_name = chosen_name describe a,
      negative_observations = extracted_negative (describe (text_chunk a)),
      positive_observations = extracted_positive (describe (text_chunk a))\<rparr>"
  using labelled_Nil_iff [of describe k areas] by (simp add: entry_def labelled_snoc)

lemma entry_snoc_old:
  "k \<in> label describe ` set areas \<Longrightarrow> label describe a = k \<Longrightarrow>
   entry describe (areas @ [a]) k =
     (entry describe areas k)\<lparr>
       negative_observations := negative_observations (entry describe areas k) @
          extracted_negative (describe (text_chunk a)),
       positive_observations := positive_observations (entry describe areas k) @
          extracted_positive (describe (text_chunk a))\<rparr>"
  using labelled_Nil_iff [of describe k areas] by (simp add: entry_def labelled_snoc)

lemma tracks_None: "tracks seen ks \<Longrightarrow> k \<notin> set ks \<Longrightarrow> seen k = None"
  unfolding tracks_def by (metis nth_mem not_Some_eq)

lemma tracks_Some: "tracks seen ks \<Longrightarrow> k \<in> set ks \<Longrightarrow> \<exists>i. seen k = Some i \<and> i < length ks \<and> ks ! i = k"
  unfolding tracks_def by (metis in_set_conv_nth)

lemma tracks_snoc:
  assumes "tracks seen ks" "k \<notin> set ks"
  shows "tracks (seen(k \<mapsto> length ks)) (ks @ [k])"
  unfolding tracks_def
proof (intro allI)
  fix k' i
  show "((seen(k \<mapsto> length ks)) k' = Some i) = (i < length (ks @ [k]) \<and> (ks @ [k]) ! i = k')"
  proof (cases "k' = k")
    case True
    have "i < length ks \<Longrightarrow> ks ! i \<noteq> k" using assms(2) by (metis nth_mem)
    with True show ?thesis by (auto simp: nth_append)
  next
    case False
    with assms(1) show ?thesis unfolding tracks_def by (auto simp: nth_append)
  qed
qed

lemma parse_fold:
  "parsed_areas (foldl (parse_step describe) parse_init areas) =
     map (entry describe areas) (labels_in_order describe areas) \<and>
   tracks (seen_rooms (foldl (parse_step describe) parse_init areas)) (labels_in_order describe areas)"
proof (induction areas rule: rev_induct)
  case Nil
  show ?case by (simp add: parse_init_def labels_in_order_def tracks_def)
next
  case (snoc a areas)
  let ?st = "foldl (parse_step describe) parse_init areas"
  let ?ks = "labels_in_order describe areas"
  let ?k = "label describe a"
  from snoc have P: "parsed_areas ?st = map (entry describe areas) ?ks"
    and T: "tracks (seen_rooms ?st) ?ks" by simp_all
  show ?case
  proof (cases "?k \<in> set ?ks")
    case True
    from tracks_Some [OF T True] obtain i where i: "seen_rooms ?st ?k = Some i"
      "i < length ?ks" "?ks ! i = ?k" by blast
    have ks': "labels_in_order describe (areas @ [a]) = ?ks"
      using True by (simp add: labels_in_order_snoc)
    have old: "?k \<in> label describe ` set areas"
      using True by (simp add: labels_in_order_set)
    have "(parsed_areas ?st)[i := (parsed_areas ?st ! i)\<lparr>
               negative_observations := negative_observations (parsed_areas ?st ! i) @
                  extracted_negative (describe (text_chunk a)),
               positive_observations := positive_observations (parsed_areas ?st ! i) @
                  extracted_positive (describe (text_chunk a))\<rparr>] =
          map (entry describe (areas @ [a])) ?ks"
    proof (rule nth_equalityI)
      show "length ((parsed_areas ?st)[i := (parsed_areas ?st ! i)\<lparr>
               negative_observations := negative_observations (parsed_areas ?st ! i) @
                  extracted_negative (describe (text_chunk a)),
               positive_observations := positive_observations (parsed_areas ?st ! i) @
                  extracted_positive (describe (text_chunk a))\<rparr>]) =
          length (map (entry describe (areas @ [a])) ?ks)"
        by (simp add: P)
    next
      fix j
      assume "j < length ((parsed_areas ?st)[i := (parsed_areas ?st ! i)\<lparr>
               negative_observations := negative_observations (parsed_areas ?st ! i) @
                  extracted_negative (describe (text_chunk a)),
               positive_observations := positive_observations (parsed_areas ?st ! i) @
                  extracted_positive (describe (text_chunk a))\<rparr>])"
      then have j: "j < length ?ks" by (simp add: P)
      show "(parsed_areas ?st)[i := (parsed_areas ?st ! i)\<lparr>
               negative_observations := negative_observations (parsed_areas ?st ! i) @
                  extracted_negative (describe (text_chunk a)),
               positive_observations := positive_observations (parsed_areas ?st ! i) @
                  extracted_positive (describe (text_chunk a))\<rparr>] ! j =
          map (entry describe (areas @ [a])) ?ks ! j"
      proof (cases "j = i")
        case True
        then show ?thesis
          using i j entry_snoc_old [OF old refl] by (simp add: P)
      next
        case False
        have "?ks ! j \<noteq> ?ks ! i"
          using False i(2) j labels_in_order_distinct [of describe areas]
          by (simp add: nth_eq_iff_index_eq)
        with i(3) have "?ks ! j \<noteq> ?k" by simp
        then have "entry describe (areas @ [a]) (?ks ! j) = entry describe areas (?ks ! j)"
          by (intro entry_snoc_other) (rule not_sym)
        with False j show ?thesis by (simp add: P)
      qed
    qed
    moreover have "parsed_areas (parse_step describe ?st a) =
        (parsed_areas ?st)[i := (parsed_areas ?st ! i)\<lparr>
               negative_observations := negative_observations (parsed_areas ?st ! i) @
                  extracted_negative (describe (text_chunk a)),
               positive_observations := positive_observations (parsed_areas ?st ! i) @
                  extracted_positive (describe (text_chunk a))\<rparr>]"
      using i(1) by (simp add: parse_step_eq Let_def)
    moreover have "seen_rooms (parse_step describe ?st a) = seen_rooms ?st"
      using i(1) by (simp add: parse_step_eq Let_def)
    ultimately show ?thesis
      using T by (simp only: foldl_append foldl.simps ks' simp_thms)
  next
    case False
    have none: "seen_rooms ?st ?k = None" by (rule tracks_None [OF T False])
    have ks': "labels_in_order describe (areas @ [a]) = ?ks @ [?k]"
      using False by (simp add: labels_in_order_snoc)
    have new: "?k \<notin> label describe ` set areas"
      using False by (simp add: labels_in_order_set)
    have "map (entry describe (areas @ [a])) ?ks = map (entry describe areas) ?ks"
    proof (rule map_cong [OF refl])
      fix k assume "k \<in> set ?ks"
      with False have "?k \<noteq> k" by auto
      then show "entry describe (areas @ [a]) k = entry describe areas k"
        by (rule entry_snoc_other)
    qed
    then have A: "parsed_areas ?st @
               [\<lparr>room_name = chosen_name describe a,
                 negative_observations = extracted_negative (describe (text_chunk a)),
                 positive_observations = extracted_positive (describe (text_chunk a))\<rparr>] =
          map (entry describe (areas @ [a])) (?ks @ [?k])"
      using entry_snoc_new [OF new refl] by (simp add: P)
    have B: "tracks ((seen_rooms ?st)(?k \<mapsto> length (parsed_areas ?st))) (?ks @ [?k])"
      using tracks_snoc [OF T False] by (simp add: P)
    have pa: "parsed_areas (parse_step describe ?st a) = parsed_areas ?st @
               [\<lparr>room_name = chosen_name describe a,
                 negative_observations = extracted_negative (describe (text_chunk a)),
                 positive_observations = extracted_positive (describe (text_chunk a))\<rparr>]"
      using none by (simp add: parse_step_eq Let_def)
    have sr: "seen_rooms (parse_step describe ?st a) =
        (seen_rooms ?st)(?k \<mapsto> length (parsed_areas ?st))"
      using none by (simp add: parse_step_eq Let_def)
    show ?thesis
      using A B by (simp only: foldl_append foldl.simps ks' pa sr simp_thms)
  qed
qed

lemma parse_sections_eq:
  "parse_sections describe areas = map (entry describe areas) (labels_in_order describe areas)"
  by (simp add: parse_sections_def parse_fold)

lemma key_of_entry:
  assumes "k \<in> label describe ` set areas"
  shows "key_of (entry describe areas k) = k"
proof -
  from assms have "labelled describe k areas \<noteq> []" by (simp add: labelled_Nil_iff)
  then have "hd (labelled describe k areas) \<in> set (labelled describe k areas)" by simp
  then have "label describe (hd (labelled describe k areas)) = k"
    by (simp add: labelled_def)
  then show ?thesis by (simp add: key_of_def entry_def label_def)
qed

lemma parse_inspection_count:
  assumes "parse_inspection_deterministically describe t = Inr rooms"
  shows "\<exists>areas. extract_impacted_areas_from_text t 20 = Inr areas \<and>
           length rooms = card (label describe ` set areas) \<and> length rooms \<le> length areas"
proof -
  from assms obtain areas where a: "extract_impacted_areas_from_text t 20 = Inr areas"
    and r: "rooms = parse_sections describe areas"
    by (auto simp: parse_inspection_deterministically_def split: sum.splits)
  have "length rooms = length (labels_in_order describe areas)"
    by (simp add: r parse_sections_eq)
  also have "\<dots> = card (set (labels_in_order describe areas))"
    by (rule distinct_card [symmetric]) (rule labels_in_order_distinct)
  finally have c: "length rooms = card (label describe ` set areas)"
    by (simp only: labels_in_order_set)
  have "card (label describe ` set areas) \<le> card (set areas)"
    by (rule card_image_le) simp
  also have "\<dots> \<le> length areas" by (rule card_length)
  finally have "length rooms \<le> length areas" by (simp only: c)
  with a c show ?thesis by blast
qed

subsection \<open>What normalization identifies\<close>

lemma strip_core:
  assumes "list_all is_space ws" and "list_all is_space ws'" and "is_trimmed c"
  shows "strip (ws @ c @ ws') = c"
proof (cases c)
  case Nil
  from assms have "\<forall>x \<in> set (ws @ [] @ ws'). is_space x"
    by (auto simp: list_all_iff)
  then have d: "dropWhile is_space (ws @ [] @ ws') = []"
    by (simp only: dropWhile_eq_Nil_conv)
  show ?thesis unfolding Nil strip_def d by simp
next
  case (Cons x xs)
  with assms have x: "\<not> is_space x" and l: "\<not> is_space (last c)"
    by (simp_all add: is_trimmed_def)
  from assms(1) have "dropWhile is_space (ws @ c @ ws') = dropWhile is_space (c @ ws')"
    by (simp add: list_all_iff dropWhile_append2)
  also have "\<dots> = c @ ws'"
    using x by (simp add: Cons)
  finally have d: "dropWhile is_space (ws @ c @ ws') = c @ ws'" .
  from Cons have "rev c \<noteq> []" by simp
  then obtain y ys where r: "rev c = y # ys" by (cases "rev c") auto
  then have "y = hd (rev c)" by simp
  also have "\<dots> = last c" using Cons by (simp add: hd_rev)
  finally have y: "\<not> is_space y" using l by simp
  have "dropWhile is_space (rev ws' @ rev c) = dropWhile is_space (rev c)"
    using assms(2) by (intro dropWhile_append2) (simp add: list_all_iff)
  also have "\<dots> = rev c"
    using y by (simp add: r)
  finally have "dropWhile is_space (rev (c @ ws')) = rev c" by simp
  then show ?thesis by (simp add: strip_def d)
qed

lemma strip_trimmed_core: "trimmed_core name (strip name)"
proof -
  let ?m = "dropWhile is_space name"
  let ?r = "dropWhile is_space (rev ?m)"
  have name: "name = takeWhile is_space name @ ?m" by simp
  have "rev (takeWhile is_space (rev ?m) @ ?r) = ?m" by simp
  then have "rev ?r @ rev (takeWhile is_space (rev ?m)) = ?m" by (simp only: rev_append)
  then have m: "?m = strip name @ rev (takeWhile is_space (rev ?m))"
    by (simp only: strip_def)
  have before: "list_all is_space (takeWhile is_space name)"
    by (auto simp: list_all_iff dest: set_takeWhileD)
  have after: "list_all is_space (rev (takeWhile is_space (rev ?m)))"
    by (auto simp: list_all_iff dest: set_takeWhileD)
  have core: "is_trimmed (strip name)"
  proof (cases "strip name = []")
    case True
    then show ?thesis by (simp add: is_trimmed_def)
  next
    case False
    then have r: "?r \<noteq> []" by (simp add: strip_def)
    then have "\<not> is_space (hd ?r)" by (rule hd_dropWhile)
    moreover have "last (strip name) = hd ?r"
      using r by (simp add: strip_def last_rev)
    ultimately have l: "\<not> is_space (last (strip name))" by simp
    from False m have "hd ?m = hd (strip name)"
      by (metis hd_append2)
    moreover from False m have "?m \<noteq> []" by (metis append_is_Nil_conv)
    then have "\<not> is_space (hd ?m)" by (rule hd_dropWhile)
    ultimately have "\<not> is_space (hd (strip name))" by simp
    with l show ?thesis by (simp add: is_trimmed_def)
  qed
  have "name = takeWhile is_space name @ strip name @ rev (takeWhile is_space (rev ?m))"
    using name m by (metis)
  with before after core show ?thesis
    unfolding trimmed_core_def by (intro exI conjI)
qed

lemma trimmed_core_strip: "trimmed_core name c \<Longrightarrow> strip name = c"
  by (auto simp: trimmed_core_def strip_core)

lemma normalize_area_eq: "normalize_area name = map to_lower (strip name)"
  by (simp add: normalize_area_def lower_def strip_def)

lemma normalize_area_same_name:
  "normalize_area n = normalize_area n' \<longleftrightarrow> same_name n n'"
proof
  assume "normalize_area n = normalize_area n'"
  then have "map to_lower (strip n) = map to_lower (strip n')"
    by (simp only: normalize_area_eq)
  with strip_trimmed_core [of n] strip_trimmed_core [of n'] show "same_name n n'"
    unfolding same_name_def by (intro exI conjI)
next
  assume "same_name n n'"
  then obtain c c' where "trimmed_core n c" and "trimmed_core n' c'"
    and eq: "map to_lower c = map to_lower c'"
    unfolding same_name_def by blast
  then have "strip n = c" and "strip n' = c'" by (simp_all add: trimmed_core_strip)
  with eq show "normalize_area n = normalize_area n'"
    by (simp only: normalize_area_eq)
qed

text \<open>
  C2. Two sections are filed under one area exactly when their names are equal after
  case and white-space normalization: equal up to the case of the letters once the white
  space at both ends is left out. The areas returned have pairwise different normalized
  names, one area for every normalized name among the sections, in the order in which the
  names first occur. An
  area is named by the first section with its normalized name, and its negative and its
  positive observations are those of all sections with that normalized name, joined in
  the order of the sections. So the number of areas is the number of distinct normalized
  names.
\<close>

theorem areas_merged_by_normalized_name:
  "length (parse_sections describe areas) = card (label describe ` set areas) \<and>
   map key_of (parse_sections describe areas) = labels_in_order describe areas \<and>
   distinct (map key_of (parse_sections describe areas)) \<and>
   (\<forall>a \<in> set areas. \<exists>r \<in> set (parse_sections describe areas). key_of r = label describe a) \<and>
   (\<forall>r \<in> set (parse_sections describe areas). \<exists>first rest.
      labelled describe (key_of r) areas = first # rest \<and>
      room_name r = chosen_name describe first \<and>
      negative_observations r =
        concat (map (\<lambda>a. extracted_negative (describe (text_chunk a))) (first # rest)) \<and>
      positive_observations r =
        concat (map (\<lambda>a. extracted_positive (describe (text_chunk a))) (first # rest))) \<and>
   (\<forall>a b. label describe a = label describe b \<longleftrightarrow>
      same_name (chosen_name describe a) (chosen_name describe b)) \<and>
   (\<forall>a \<in> set areas. \<forall>b \<in> set areas.
      same_name (chosen_name describe a) (chosen_name describe b) \<longleftrightarrow>
      (\<exists>r \<in> set (parse_sections describe areas).
         a \<in> set (labelled describe (key_of r) areas) \<and>
         b \<in> set (labelled describe (key_of r) areas)))"
proof -
  let ?ks = "labels_in_order describe areas"
  let ?R = "parse_sections describe areas"
  have R: "?R = map (entry describe areas) ?ks" by (rule parse_sections_eq)
  have keys: "map key_of ?R = ?ks"
  proof -
    have "map key_of ?R = map (\<lambda>k. key_of (entry describe areas k)) ?ks"
      by (simp add: R)
    also have "\<dots> = map (\<lambda>k. k) ?ks"
      by (rule map_cong [OF refl]) (simp add: key_of_entry labels_in_order_set)
    finally show ?thesis by simp
  qed
  have len: "length ?R = card (label describe ` set areas)"
  proof -
    have "length ?R = length ?ks" by (simp add: R)
    also have "\<dots> = card (set ?ks)"
      by (rule distinct_card [symmetric]) (rule labels_in_order_distinct)
    finally show ?thesis by (simp only: labels_in_order_set)
  qed
  have dist: "distinct (map key_of ?R)"
    by (simp only: keys labels_in_order_distinct)
  have cover: "\<forall>a \<in> set areas. \<exists>r \<in> set ?R. key_of r = label describe a"
  proof
    fix a assume "a \<in> set areas"
    then have "label describe a \<in> set (map key_of ?R)"
      by (simp only: keys labels_in_order_set) simp
    then show "\<exists>r \<in> set ?R. key_of r = label describe a" by auto
  qed
  have merged: "\<forall>r \<in> set ?R. \<exists>first rest.
      labelled describe (key_of r) areas = first # rest \<and>
      room_name r = chosen_name describe first \<and>
      negative_observations r =
        concat (map (\<lambda>a. extracted_negative (describe (text_chunk a))) (first # rest)) \<and>
      positive_observations r =
        concat (map (\<lambda>a. extracted_positive (describe (text_chunk a))) (first # rest))"
  proof
    fix r assume "r \<in> set ?R"
    then obtain k where k: "k \<in> set ?ks" and r: "r = entry describe areas k"
      by (auto simp: R)
    from k have in_labels: "k \<in> label describe ` set areas"
      by (simp add: labels_in_order_set)
    then have key: "key_of r = k" by (simp add: r key_of_entry)
    from in_labels have "labelled describe k areas \<noteq> []" by (simp add: labelled_Nil_iff)
    then obtain first rest where fr: "labelled describe k areas = first # rest"
      by (cases "labelled describe k areas") auto
    have "labelled describe (key_of r) areas = first # rest \<and>
      room_name r = chosen_name describe first \<and>
      negative_observations r =
        concat (map (\<lambda>a. extracted_negative (describe (text_chunk a))) (first # rest)) \<and>
      positive_observations r =
        concat (map (\<lambda>a. extracted_positive (describe (text_chunk a))) (first # rest))"
      unfolding key using fr by (simp add: r entry_def)
    then show "\<exists>first rest.
      labelled describe (key_of r) areas = first # rest \<and>
      room_name r = chosen_name describe first \<and>
      negative_observations r =
        concat (map (\<lambda>a. extracted_negative (describe (text_chunk a))) (first # rest)) \<and>
      positive_observations r =
        concat (map (\<lambda>a. extracted_positive (describe (text_chunk a))) (first # rest))"
      by (intro exI)
  qed
  have names: "\<forall>a b. label describe a = label describe b \<longleftrightarrow>
      same_name (chosen_name describe a) (chosen_name describe b)"
    by (simp add: label_def normalize_area_same_name)
  have together: "\<forall>a \<in> set areas. \<forall>b \<in> set areas.
      same_name (chosen_name describe a) (chosen_name describe b) \<longleftrightarrow>
      (\<exists>r \<in> set ?R.
         a \<in> set (labelled describe (key_of r) areas) \<and>
         b \<in> set (labelled describe (key_of r) areas))"
  proof (intro ballI iffI)
    fix a b
    assume a: "a \<in> set areas" and b: "b \<in> set areas"
      and "same_name (chosen_name describe a) (chosen_name describe b)"
    with names have eq: "label describe a = label describe b" by simp
    from cover a obtain r where r: "r \<in> set ?R" and k: "key_of r = label describe a"
      by blast
    from a b k eq have "a \<in> set (labelled describe (key_of r) areas) \<and>
         b \<in> set (labelled describe (key_of r) areas)"
      by (simp add: labelled_def)
    with r show "\<exists>r \<in> set ?R.
         a \<in> set (labelled describe (key_of r) areas) \<and>
         b \<in> set (labelled describe (key_of r) areas)"
      by (rule bexI [rotated])
  next
    fix a b
    assume "\<exists>r \<in> set ?R.
         a \<in> set (labelled describe (key_of r) areas) \<and>
         b \<in> set (labelled describe (key_of r) areas)"
    then have "label describe a = label describe b"
      by (auto simp: labelled_def)
    with names show "same_name (chosen_name describe a) (chosen_name describe b)" by simp
  qed
  from len keys dist cover merged names together show ?thesis by (intro conjI)
qed

theorem areas_merged_by_normalized_name_witness:
  "map (chosen_name example_describe) example_sections = [''Hall'', ''Kitchen'', ''  HALL ''] \<and>
   parse_sections example_describe example_sections =
     [\<lparr>room_name = ''Hall'', negative_observations = [''Hall damp'', ''HALL crack''],
       positive_observations = [''paint sound'']\<rparr>,
      \<lparr>room_name = ''Kitchen'', negative_observations = [''Kitchen leak''],
       positive_observations = [''tiles sound'']\<rparr>] \<and>
   card (label example_describe ` set example_sections) = 2 \<and>
   labels_in_order example_describe example_sections = [''hall'', ''kitchen''] \<and>
   same_name ''Hall'' ''  HALL '' \<and>
   \<not> same_name ''Hall'' ''Kitchen''"
proof -
  have c: "map (chosen_name example_describe) example_sections =
      [''Hall'', ''Kitchen'', ''  HALL '']"
    by (simp add: chosen_name_def example_sections_def example_describe_def)
  have p: "parse_sections example_describe example_sections =
     [\<lparr>room_name = ''Hall'', negative_observations = [''Hall damp'', ''HALL crack''],
       positive_observations = [''paint sound'']\<rparr>,
      \<lparr>room_name = ''Kitchen'', negative_observations = [''Kitchen leak''],
       positive_observations = [''tiles sound'']\<rparr>]"
    by (simp add: parse_sections_def parse_init_def example_sections_def example_describe_def
        parse_step_def normalize_area_def lower_def strip_def to_lower_ascii is_space_def)
  have k: "map key_of (parse_sections example_describe example_sections) = [''hall'', ''kitchen'']"
    unfolding p
    by (simp add: key_of_def normalize_area_def lower_def strip_def to_lower_ascii is_space_def)
  let ?hall = "\<lparr>area_number = ''1'', area_name = ''Impacted Area 1'', text_chunk = ''c1''\<rparr>"
  let ?kitchen = "\<lparr>area_number = ''2'', area_name = ''Impacted Area 2'', text_chunk = ''c2''\<rparr>"
  let ?HALL = "\<lparr>area_number = ''3'', area_name = ''Impacted Area 3'', text_chunk = ''c3''\<rparr>"
  note t = areas_merged_by_normalized_name [of example_describe example_sections]
  from t have names: "\<And>a b. label example_describe a = label example_describe b \<longleftrightarrow>
      same_name (chosen_name example_describe a) (chosen_name example_describe b)"
    by simp
  from names [of ?hall ?HALL]
  have same: "same_name ''Hall'' ''  HALL ''"
    by (simp add: label_def chosen_name_def example_describe_def normalize_area_def lower_def
        strip_def to_lower_ascii is_space_def)
  from names [of ?hall ?kitchen]
  have other: "\<not> same_name ''Hall'' ''Kitchen''"
    by (simp add: label_def chosen_name_def example_describe_def normalize_area_def lower_def
        strip_def to_lower_ascii is_space_def)
  from t p k have "card (label example_describe ` set example_sections) = 2"
    and "labels_in_order example_describe example_sections = [''hall'', ''kitchen'']"
    by simp_all
  with c p same other show ?thesis by (intro conjI)
qed

section \<open>The structural validator (validator.py)\<close>

text \<open>
  The validator works on dictionaries read from JSON. A value is one of the following
  (floating-point numbers are left out); an area and a thermal reading are dictionaries
  from keys to values; \<^verbatim>\<open>inspection_data\<close> and \<^verbatim>\<open>thermal_data\<close> are dictionaries that may
  hold a list of such dictionaries under \<^verbatim>\<open>areas\<close> and under \<^verbatim>\<open>thermal_readings\<close>.
\<close>

datatype pyval =
  VNone
  | VBool bool
  | VInt int
  | VStr string
  | VList "pyval list"
  | VDict "(string \<times> pyval) list"

type_synonym pydict = "string \<rightharpoonup> pyval"

record pydata =
  data_areas :: "pydict list option"
  data_thermal_readings :: "pydict list option"

text \<open>Truth value testing, \<^verbatim>\<open>dict.get\<close> with a default, and \<^verbatim>\<open>isinstance(v, list)\<close>.\<close>

fun truthy :: "pyval \<Rightarrow> bool" where
  "truthy VNone = False"
| "truthy (VBool b) = b"
| "truthy (VInt n) = (n \<noteq> 0)"
| "truthy (VStr s) = (s \<noteq> [])"
| "truthy (VList l) = (l \<noteq> [])"
| "truthy (VDict d) = (d \<noteq> [])"

definition dict_get :: "pydict \<Rightarrow> string \<Rightarrow> pyval \<Rightarrow> pyval" where
  "dict_get d k dflt = (case d k of None \<Rightarrow> dflt | Some v \<Rightarrow> v)"

fun is_list :: "pyval \<Rightarrow> bool" where
  "is_list (VList l) = True"
| "is_list v = False"

definition get_areas :: "pydata \<Rightarrow> pydict list" where
  "get_areas inspection_data = (case data_areas inspection_data of None \<Rightarrow> [] | Some l \<Rightarrow> l)"

definition get_readings :: "pydata \<Rightarrow> pydict list" where
  "get_readings thermal_data =
     (case data_thermal_readings thermal_data of None \<Rightarrow> [] | Some l \<Rightarrow> l)"

text \<open>
  \<^verbatim>\<open>str.isupper\<close>: no character is a lower-case letter and some character is an upper-case
  letter. Below 256 the lower-case letters are those \<^verbatim>\<open>str.lower\<close> produces and
  170, 181, 186, 223 and 255.
\<close>

definition is_lower_char :: "char \<Rightarrow> bool" where
  "is_lower_char c = (c \<in> set lowercase \<or> c \<in> set [CHR 0xAA, CHR 0xB5, CHR 0xBA, CHR 0xDF, CHR 0xFF])"

definition isupper :: "string \<Rightarrow> bool" where
  "isupper s = (list_all (\<lambda>c. \<not> is_lower_char c) s \<and> list_ex (\<lambda>c. c \<in> set uppercase) s)"

text \<open>
  What the validator records. An error carries what its message prints: the area count,
  the names previewed and the number of further names; the offending area name; the
  index of the offending reading. \<^verbatim>\<open>AttributeError\<close> and \<^verbatim>\<open>TypeError\<close> are the exceptions
  Python raises when a value that must be a string is not one; \<^verbatim>\<open>validate_all\<close> does not
  catch them.
\<close>

datatype validation_error =
  AreaCountExceeded nat "string list" "nat option"
  | ThermalIdInAreas pyval
  | ThermalUsesArea nat

datatype validation_warning =
  NoAreasExtracted
  | SuspiciousAreaName pyval
  | ImageIdLooksLikeArea string
  | ImageIdMatchesArea pyval

datatype exn =
  ValidationError validation_error
  | AttributeError
  | TypeError

record results =
  valid :: bool
  errors :: "validation_error list"
  warnings :: "validation_warning list"
  area_count :: nat
  thermal_count :: nat

record validated =
  validation :: results
  inspection :: pydata
  thermal :: pydata

definition MAX_AREAS :: nat where
  "MAX_AREAS = 20"

text \<open>
  A check appends warnings to \<^verbatim>\<open>results\<close> and may raise; the warnings appended before the
  exception stay. So a check maps the warnings so far to the warnings after it and the
  exception raised, if any.
\<close>

type_synonym check = "validation_warning list \<Rightarrow> validation_warning list \<times> exn option"

text \<open>\<^verbatim>\<open>", ".join(names)\<close> needs every name to be a string.\<close>

fun all_strings :: "pyval list \<Rightarrow> string list option" where
  "all_strings [] = Some []"
| "all_strings (VStr s # vs) = (case all_strings vs of None \<Rightarrow> None | Some ss \<Rightarrow> Some (s # ss))"
| "all_strings (v # vs) = None"

definition validate_area_count :: "pydata \<Rightarrow> check" where
  "validate_area_count inspection_data ws =
     (let areas = get_areas inspection_data;
          count = length areas
      in if count > MAX_AREAS then
           let area_names = map (\<lambda>a. dict_get a ''area_name'' (VStr ''UNKNOWN'')) (take 30 areas)
           in case all_strings (take 10 area_names) of
                None \<Rightarrow> (ws, Some TypeError)
              | Some area_preview \<Rightarrow>
                  (ws, Some (ValidationError (AreaCountExceeded count area_preview
                     (if length area_names > 10 then Some (length area_names - 10) else None))))
         else if count = 0 then (ws @ [NoAreasExtracted], None)
         else (ws, None))"

definition thermal_patterns :: "string list" where
  "thermal_patterns = [''.jpg'', ''.jpeg'', ''.png'', ''rb0'', ''rb_'', ''ir_'', ''ir0'']"

fun no_thermal_ids_loop :: "pydict list \<Rightarrow> check" where
  "no_thermal_ids_loop [] ws = (ws, None)"
| "no_thermal_ids_loop (a # rest) ws =
     (case dict_get a ''area_name'' (VStr []) of
        VStr s \<Rightarrow>
          let area_name = lower s
          in if list_ex (\<lambda>pattern. sublist pattern area_name) thermal_patterns
             then (ws, Some (ValidationError (ThermalIdInAreas (dict_get a ''area_name'' VNone))))
             else if length area_name > 30 \<or> (isupper area_name \<and> length area_name > 10)
             then no_thermal_ids_loop rest
                    (ws @ [SuspiciousAreaName (dict_get a ''area_name'' VNone)])
             else no_thermal_ids_loop rest ws
      | _ \<Rightarrow> (ws, Some AttributeError))"

definition validate_no_thermal_ids_in_areas :: "pydata \<Rightarrow> check" where
  "validate_no_thermal_ids_in_areas inspection_data ws =
     no_thermal_ids_loop (get_areas inspection_data) ws"

definition common_areas :: "string list" where
  "common_areas = [''hall'', ''bedroom'', ''kitchen'', ''bathroom'', ''living'', ''dining'']"

text \<open>The loop over \<^verbatim>\<open>enumerate(readings)\<close>; \<open>i\<close> is the index of the first reading of the list.\<close>

fun thermal_structure_loop :: "nat \<Rightarrow> pydict list \<Rightarrow> check" where
  "thermal_structure_loop i [] ws = (ws, None)"
| "thermal_structure_loop i (reading # rest) ws =
     (if reading ''area'' \<noteq> None \<and> reading ''image_id'' = None
      then (ws, Some (ValidationError (ThermalUsesArea i)))
      else
        let image_id = dict_get reading ''image_id'' (VStr [])
        in if \<not> truthy image_id \<or> image_id = VStr ''Not Available''
           then thermal_structure_loop (i + 1) rest ws
           else (case image_id of
                   VStr s \<Rightarrow>
                     if list_ex (\<lambda>area. sublist area (lower s)) common_areas
                     then thermal_structure_loop (i + 1) rest (ws @ [ImageIdLooksLikeArea s])
                     else thermal_structure_loop (i + 1) rest ws
                 | _ \<Rightarrow> (ws, Some AttributeError)))"

definition validate_thermal_structure :: "pydata \<Rightarrow> check" where
  "validate_thermal_structure thermal_data ws =
     thermal_structure_loop 0 (get_readings thermal_data) ws"

text \<open>The list comprehension \<^verbatim>\<open>[a.get("area_name", "").lower() for a in areas]\<close>.\<close>

fun lower_names :: "pydict list \<Rightarrow> string list option" where
  "lower_names [] = Some []"
| "lower_names (a # rest) =
     (case dict_get a ''area_name'' (VStr []) of
        VStr s \<Rightarrow> (case lower_names rest of None \<Rightarrow> None | Some ns \<Rightarrow> Some (lower s # ns))
      | _ \<Rightarrow> None)"

fun no_areas_in_thermal_loop :: "string list \<Rightarrow> pydict list \<Rightarrow> check" where
  "no_areas_in_thermal_loop area_names [] ws = (ws, None)"
| "no_areas_in_thermal_loop area_names (reading # rest) ws =
     (case dict_get reading ''image_id'' (VStr []) of
        VStr s \<Rightarrow>
          if lower s \<in> set area_names
          then no_areas_in_thermal_loop area_names rest
                 (ws @ [ImageIdMatchesArea (dict_get reading ''image_id'' VNone)])
          else no_areas_in_thermal_loop area_names rest ws
      | _ \<Rightarrow> (ws, Some AttributeError))"

definition validate_no_areas_in_thermal :: "pydata \<Rightarrow> pydata \<Rightarrow> check" where
  "validate_no_areas_in_thermal inspection_data thermal_data ws =
     (case lower_names (get_areas inspection_data) of
        None \<Rightarrow> (ws, Some AttributeError)
      | Some area_names \<Rightarrow>
          no_areas_in_thermal_loop area_names (get_readings thermal_data) ws)"

text \<open>\<^verbatim>\<open>_clean_null_fields\<close>. It changes the dictionaries in place; here it returns them.\<close>

definition clean_area :: "pydict \<Rightarrow> pydict" where
  "clean_area a =
     (let a = (if \<not> truthy (dict_get a ''area_name'' VNone)
               then a(''area_name'' \<mapsto> VStr ''Not Available'') else a);
          a = (if \<not> is_list (dict_get a ''negative_observations'' VNone)
               then a(''negative_observations'' \<mapsto> VList []) else a);
          a = (if \<not> is_list (dict_get a ''positive_observations'' VNone)
               then a(''positive_observations'' \<mapsto> VList []) else a)
      in a)"

definition reading_fields :: "string list" where
  "reading_fields = [''image_id'', ''hotspot'', ''coldspot'', ''temperature_difference'',
                     ''interpretation'']"

definition clean_field :: "pydict \<Rightarrow> string \<Rightarrow> pydict" where
  "clean_field reading field =
     (if \<not> truthy (dict_get reading field VNone)
      then reading(field \<mapsto> VStr ''Not Available'') else reading)"

definition clean_reading :: "pydict \<Rightarrow> pydict" where
  "clean_reading reading = foldl clean_field reading reading_fields"

definition clean_null_fields :: "pydata \<Rightarrow> pydata" where
  "clean_null_fields data =
     \<lparr>data_areas = map_option (map clean_area) (data_areas data),
      data_thermal_readings = map_option (map clean_reading) (data_thermal_readings data)\<rparr>"

text \<open>
  The body of the \<^verbatim>\<open>try\<close> block up to the cleaning: the four checks in order; an
  exception in one of them skips the rest.
\<close>

definition and_then :: "validation_warning list \<times> exn option \<Rightarrow> check \<Rightarrow>
    validation_warning list \<times> exn option" where
  "and_then r next_check = (case r of (ws, None) \<Rightarrow> next_check ws | (ws, Some e) \<Rightarrow> (ws, Some e))"

definition run_checks :: "pydata \<Rightarrow> pydata \<Rightarrow> validation_warning list \<times> exn option" where
  "run_checks inspection_data thermal_data =
     and_then (and_then (and_then
       (validate_area_count inspection_data [])
       (validate_no_thermal_ids_in_areas inspection_data))
       (validate_thermal_structure thermal_data))
       (validate_no_areas_in_thermal inspection_data thermal_data)"

text \<open>
  \<^verbatim>\<open>validate_all\<close>. Without an exception the two collections are cleaned, inside the
  \<^verbatim>\<open>try\<close> block; a \<^verbatim>\<open>ValidationError\<close> is caught and recorded, and the collections are
  as they were; any other exception leaves the function.
\<close>

definition validate_all :: "pydata \<Rightarrow> pydata \<Rightarrow> exn + validated" where
  "validate_all inspection_data thermal_data =
     (case run_checks inspection_data thermal_data of
        (ws, None) \<Rightarrow>
          let inspection_data = clean_null_fields inspection_data;
              thermal_data = clean_null_fields thermal_data
          in Inr \<lparr>validation = \<lparr>valid = True, errors = [], warnings = ws,
                     area_count = length (get_areas inspection_data),
                     thermal_count = length (get_readings thermal_data)\<rparr>,
                  inspection = inspection_data, thermal = thermal_data\<rparr>
      | (ws, Some (ValidationError e)) \<Rightarrow>
          Inr \<lparr>validation = \<lparr>valid = False, errors = [e], warnings = ws,
                  area_count = length (get_areas inspection_data),
                  thermal_count = length (get_readings thermal_data)\<rparr>,
               inspection = inspection_data, thermal = thermal_data\<rparr>
      | (ws, Some e) \<Rightarrow> Inl e)"

text \<open>
  Inputs of the expected types: every \<^verbatim>\<open>area_name\<close> and every \<^verbatim>\<open>image_id\<close> that is present
  is a string.
\<close>

fun is_str :: "pyval \<Rightarrow> bool" where
  "is_str (VStr s) = True"
| "is_str v = False"

definition names_are_strings :: "pydata \<Rightarrow> bool" where
  "names_are_strings inspection_data =
     list_all (\<lambda>a. case a ''area_name'' of None \<Rightarrow> True | Some v \<Rightarrow> is_str v)
       (get_areas inspection_data)"

definition image_ids_are_strings :: "pydata \<Rightarrow> bool" where
  "image_ids_are_strings thermal_data =
     list_all (\<lambda>r. case r ''image_id'' of None \<Rightarrow> True | Some v \<Rightarrow> is_str v)
       (get_readings thermal_data)"

text \<open>
  The check of the thermal structure reads an \<^verbatim>\<open>image_id\<close> as a string only when it is
  truthy: for that check a falsy \<^verbatim>\<open>image_id\<close>, such as \<^verbatim>\<open>None\<close>, will do as well.
\<close>

definition image_ids_checkable :: "pydata \<Rightarrow> bool" where
  "image_ids_checkable thermal_data =
     list_all (\<lambda>r. case r ''image_id'' of None \<Rightarrow> True | Some v \<Rightarrow> is_str v \<or> \<not> truthy v)
       (get_readings thermal_data)"

text \<open>The two conditions the validator treats as confusion of areas and thermal images.\<close>

definition thermal_named :: "pydict \<Rightarrow> bool" where
  "thermal_named a =
     (case a ''area_name'' of
        Some (VStr s) \<Rightarrow> list_ex (\<lambda>pattern. sublist pattern (lower s)) thermal_patterns
      | _ \<Rightarrow> False)"

definition uses_area_key :: "pydict \<Rightarrow> bool" where
  "uses_area_key reading = (reading ''area'' \<noteq> None \<and> reading ''image_id'' = None)"

definition raises_validation_error :: "validation_warning list \<times> exn option \<Rightarrow> bool" where
  "raises_validation_error r = (case snd r of Some (ValidationError e) \<Rightarrow> True | _ \<Rightarrow> False)"

definition passes :: "validation_warning list \<times> exn option \<Rightarrow> bool" where
  "passes r = (snd r = None)"

text \<open>Upper-case letters have bit 5 of their code clear, the letters \<^verbatim>\<open>str.lower\<close> produces have it set.\<close>

definition bit5 :: "char \<Rightarrow> bool" where
  "bit5 c = (case c of Char b0 b1 b2 b3 b4 b5 b6 b7 \<Rightarrow> b5)"

text \<open>Example inputs.\<close>

definition areas_with_image_name :: pydata where
  "areas_with_image_name =
     \<lparr>data_areas = Some [[''area_name'' \<mapsto> VStr ''Hall''],
                         [''area_name'' \<mapsto> VStr ''scan RB01.JPG'']],
      data_thermal_readings = None\<rparr>"

definition reading_without_fields :: pydata where
  "reading_without_fields =
     \<lparr>data_areas = None,
      data_thermal_readings = Some [[''image_id'' \<mapsto> VStr ''hall.jpg'']]\<rparr>"

definition one_hall_area :: pydata where
  "one_hall_area =
     \<lparr>data_areas = Some [[''area_name'' \<mapsto> VStr ''Hall'',
                          ''negative_observations'' \<mapsto> VNone]],
      data_thermal_readings = None\<rparr>"

definition reading_with_area_key :: pydata where
  "reading_with_area_key =
     \<lparr>data_areas = None,
      data_thermal_readings =
        Some [[''image_id'' \<mapsto> VStr ''RB01.JPG'', ''hotspot'' \<mapsto> VNone],
              [''image_id'' \<mapsto> VNone],
              [''area'' \<mapsto> VStr ''Hall'', ''hotspot'' \<mapsto> VStr ''30.1'']]\<rparr>"

subsection \<open>Properties of the checks\<close>

lemma is_str_cases: "is_str v \<Longrightarrow> \<exists>s. v = VStr s"
  by (cases v) simp_all

lemma all_strings_typed:
  "list_all is_str vs \<Longrightarrow> \<exists>ss. all_strings vs = Some ss"
proof (induction vs)
  case Nil
  then show ?case by simp
next
  case (Cons v vs)
  then obtain s where "v = VStr s" using is_str_cases by auto
  with Cons show ?case by auto
qed

lemma dict_get_typed:
  "(case a k of None \<Rightarrow> True | Some v \<Rightarrow> is_str v) \<Longrightarrow> is_str (dict_get a k (VStr d))"
  by (simp add: dict_get_def split: option.splits)

lemma validate_area_count_typed:
  assumes "names_are_strings inspection_data"
  shows "passes (validate_area_count inspection_data ws) \<or>
         raises_validation_error (validate_area_count inspection_data ws)"
proof -
  let ?names = "map (\<lambda>a. dict_get a ''area_name'' (VStr ''UNKNOWN''))
                  (take 30 (get_areas inspection_data))"
  have "is_str v" if "v \<in> set (take 10 ?names)" for v
  proof -
    from that have "v \<in> set ?names" by (rule in_set_takeD)
    then obtain a where a: "a \<in> set (take 30 (get_areas inspection_data))"
      and v: "v = dict_get a ''area_name'' (VStr ''UNKNOWN'')" by auto
    from a have "a \<in> set (get_areas inspection_data)" by (rule in_set_takeD)
    with assms have "case a ''area_name'' of None \<Rightarrow> True | Some v \<Rightarrow> is_str v"
      by (simp add: names_are_strings_def list_all_iff)
    then show ?thesis unfolding v by (rule dict_get_typed)
  qed
  then have "list_all is_str (take 10 ?names)"
    by (simp only: list_all_iff) blast
  from all_strings_typed [OF this] obtain ss where "all_strings (take 10 ?names) = Some ss"
    by blast
  then show ?thesis
    by (simp add: validate_area_count_def Let_def passes_def raises_validation_error_def)
qed

lemma validate_area_count_passes:
  "passes (validate_area_count inspection_data ws) \<longleftrightarrow>
     length (get_areas inspection_data) \<le> MAX_AREAS"
  by (auto simp: validate_area_count_def Let_def passes_def split: option.splits)

lemma no_thermal_ids_loop_typed:
  "list_all (\<lambda>a. case a ''area_name'' of None \<Rightarrow> True | Some v \<Rightarrow> is_str v) areas \<Longrightarrow>
   passes (no_thermal_ids_loop areas ws) \<or> raises_validation_error (no_thermal_ids_loop areas ws)"
proof (induction areas arbitrary: ws)
  case Nil
  then show ?case by (simp add: passes_def)
next
  case (Cons a areas)
  then have "is_str (dict_get a ''area_name'' (VStr []))"
    by (simp add: dict_get_typed)
  then obtain s where s: "dict_get a ''area_name'' (VStr []) = VStr s"
    using is_str_cases by blast
  from Cons have IH: "passes (no_thermal_ids_loop areas w) \<or>
      raises_validation_error (no_thermal_ids_loop areas w)" for w
    by simp
  show ?case
    using IH by (simp add: s Let_def raises_validation_error_def)
qed

lemma no_thermal_ids_loop_thermal_named:
  "list_ex thermal_named areas \<Longrightarrow> \<not> passes (no_thermal_ids_loop areas ws)"
proof (induction areas arbitrary: ws)
  case Nil
  then show ?case by simp
next
  case (Cons a areas)
  show ?case
  proof (cases "thermal_named a")
    case True
    then obtain s where "a ''area_name'' = Some (VStr s)"
      and "list_ex (\<lambda>pattern. sublist pattern (lower s)) thermal_patterns"
      by (auto simp: thermal_named_def split: option.splits pyval.splits)
    then show ?thesis
      by (simp add: dict_get_def passes_def)
  next
    case False
    with Cons.prems have "list_ex thermal_named areas" by simp
    from Cons.IH [OF this] show ?thesis
      by (simp add: passes_def Let_def split: pyval.splits)
  qed
qed

lemma dict_get_checkable:
  "(case r k of None \<Rightarrow> True | Some v \<Rightarrow> is_str v \<or> \<not> truthy v) \<Longrightarrow>
   (\<exists>s. dict_get r k (VStr []) = VStr s) \<or> \<not> truthy (dict_get r k (VStr []))"
  by (auto simp: dict_get_def split: option.splits dest: is_str_cases)

lemma strings_checkable:
  "list_all (\<lambda>r. case r ''image_id'' of None \<Rightarrow> True | Some v \<Rightarrow> is_str v) readings \<Longrightarrow>
   list_all (\<lambda>r. case r ''image_id'' of None \<Rightarrow> True | Some v \<Rightarrow> is_str v \<or> \<not> truthy v)
     readings"
  by (induction readings) (auto split: option.splits)

lemma thermal_structure_loop_checkable:
  "list_all (\<lambda>r. case r ''image_id'' of None \<Rightarrow> True | Some v \<Rightarrow> is_str v \<or> \<not> truthy v)
     readings \<Longrightarrow>
   passes (thermal_structure_loop i readings ws) \<or>
   raises_validation_error (thermal_structure_loop i readings ws)"
proof (induction readings arbitrary: i ws)
  case Nil
  then show ?case by (simp add: passes_def)
next
  case (Cons r readings)
  then have v: "(\<exists>s. dict_get r ''image_id'' (VStr []) = VStr s) \<or>
      \<not> truthy (dict_get r ''image_id'' (VStr []))"
    by (simp add: dict_get_checkable)
  from Cons have IH: "passes (thermal_structure_loop j readings w) \<or>
      raises_validation_error (thermal_structure_loop j readings w)" for j w
    by simp
  from v show ?case
  proof
    assume "\<exists>s. dict_get r ''image_id'' (VStr []) = VStr s"
    then obtain s where s: "dict_get r ''image_id'' (VStr []) = VStr s" by blast
    show ?thesis using IH by (simp add: s Let_def raises_validation_error_def)
  next
    assume "\<not> truthy (dict_get r ''image_id'' (VStr []))"
    then show ?thesis using IH by (simp add: Let_def raises_validation_error_def)
  qed
qed

lemma thermal_structure_loop_typed:
  "list_all (\<lambda>r. case r ''image_id'' of None \<Rightarrow> True | Some v \<Rightarrow> is_str v) readings \<Longrightarrow>
   passes (thermal_structure_loop i readings ws) \<or>
   raises_validation_error (thermal_structure_loop i readings ws)"
  by (rule thermal_structure_loop_checkable) (rule strings_checkable)

lemma thermal_structure_loop_uses_area_key:
  "list_ex uses_area_key readings \<Longrightarrow> \<not> passes (thermal_structure_loop i readings ws)"
proof (induction readings arbitrary: i ws)
  case Nil
  then show ?case by simp
next
  case (Cons r readings)
  show ?case
  proof (cases "uses_area_key r")
    case True
    then show ?thesis by (simp add: uses_area_key_def passes_def)
  next
    case False
    with Cons.prems have "list_ex uses_area_key readings" by simp
    from Cons.IH [OF this] show ?thesis
      by (simp add: passes_def Let_def split: pyval.splits)
  qed
qed

lemma lower_names_typed:
  "list_all (\<lambda>a. case a ''area_name'' of None \<Rightarrow> True | Some v \<Rightarrow> is_str v) areas \<Longrightarrow>
   \<exists>ns. lower_names areas = Some ns"
proof (induction areas)
  case Nil
  then show ?case by simp
next
  case (Cons a areas)
  then have "is_str (dict_get a ''area_name'' (VStr []))"
    by (simp add: dict_get_typed)
  then obtain s where s: "dict_get a ''area_name'' (VStr []) = VStr s"
    using is_str_cases by blast
  with Cons show ?case by auto
qed

lemma no_areas_in_thermal_loop_typed:
  "list_all (\<lambda>r. case r ''image_id'' of None \<Rightarrow> True | Some v \<Rightarrow> is_str v) readings \<Longrightarrow>
   passes (no_areas_in_thermal_loop ns readings ws)"
proof (induction readings arbitrary: ws)
  case Nil
  then show ?case by (simp add: passes_def)
next
  case (Cons r readings)
  then have "is_str (dict_get r ''image_id'' (VStr []))"
    by (simp add: dict_get_typed)
  then obtain s where s: "dict_get r ''image_id'' (VStr []) = VStr s"
    using is_str_cases by blast
  from Cons have IH: "passes (no_areas_in_thermal_loop ns readings w)" for w
    by simp
  show ?case
    using IH by (simp add: s)
qed

lemma no_areas_in_thermal_loop_no_error:
  "\<not> raises_validation_error (no_areas_in_thermal_loop ns readings ws)"
  by (induction readings arbitrary: ws)
     (simp_all add: raises_validation_error_def split: pyval.splits)

lemma and_then_passes: "passes r \<Longrightarrow> and_then r c = c (fst r)"
  by (cases r) (simp add: passes_def and_then_def)

lemma and_then_stops: "\<not> passes r \<Longrightarrow> and_then r c = r"
  by (cases r) (auto simp: passes_def and_then_def)

lemma passes_not_raises: "passes r \<Longrightarrow> \<not> raises_validation_error r"
  by (simp add: passes_def raises_validation_error_def)

lemma and_then_not_passes: "(\<And>ws. \<not> passes (c ws)) \<Longrightarrow> \<not> passes (and_then r c)"
  by (cases "passes r") (simp_all add: and_then_passes and_then_stops)

lemma and_then_typed:
  "passes r \<or> raises_validation_error r \<Longrightarrow>
   (\<And>ws. passes (c ws) \<or> raises_validation_error (c ws)) \<Longrightarrow>
   passes (and_then r c) \<or> raises_validation_error (and_then r c)"
  by (cases "passes r") (simp_all add: and_then_passes and_then_stops)

lemma and_then_raises:
  "passes r \<or> raises_validation_error r \<Longrightarrow>
   (\<And>ws. raises_validation_error (c ws)) \<Longrightarrow> raises_validation_error (and_then r c)"
  by (cases "passes r") (simp_all add: and_then_passes and_then_stops)

lemma and_then_keeps_raise:
  "raises_validation_error r \<Longrightarrow> raises_validation_error (and_then r c)"
  using and_then_stops passes_not_raises by metis

lemma validate_no_areas_in_thermal_typed:
  assumes "names_are_strings inspection_data" "image_ids_are_strings thermal_data"
  shows "passes (validate_no_areas_in_thermal inspection_data thermal_data ws)"
proof -
  from assms(1) obtain ns where "lower_names (get_areas inspection_data) = Some ns"
    using lower_names_typed unfolding names_are_strings_def by blast
  with assms(2) show ?thesis
    by (simp add: validate_no_areas_in_thermal_def image_ids_are_strings_def
        no_areas_in_thermal_loop_typed)
qed

lemma run_checks_typed:
  assumes "names_are_strings inspection_data" "image_ids_are_strings thermal_data"
  shows "passes (run_checks inspection_data thermal_data) \<or>
         raises_validation_error (run_checks inspection_data thermal_data)"
  unfolding run_checks_def
proof (intro and_then_typed)
  show "passes (validate_area_count inspection_data []) \<or>
        raises_validation_error (validate_area_count inspection_data [])"
    by (rule validate_area_count_typed [OF assms(1)])
  show "passes (validate_no_thermal_ids_in_areas inspection_data ws) \<or>
        raises_validation_error (validate_no_thermal_ids_in_areas inspection_data ws)" for ws
    using assms(1) unfolding validate_no_thermal_ids_in_areas_def names_are_strings_def
    by (rule no_thermal_ids_loop_typed)
  show "passes (validate_thermal_structure thermal_data ws) \<or>
        raises_validation_error (validate_thermal_structure thermal_data ws)" for ws
    using assms(2) unfolding validate_thermal_structure_def image_ids_are_strings_def
    by (rule thermal_structure_loop_typed)
  show "passes (validate_no_areas_in_thermal inspection_data thermal_data ws) \<or>
        raises_validation_error (validate_no_areas_in_thermal inspection_data thermal_data ws)"
    for ws
    using validate_no_areas_in_thermal_typed [OF assms] by simp
qed

lemma run_checks_thermal_named:
  assumes "list_ex thermal_named (get_areas inspection_data)"
  shows "\<not> passes (run_checks inspection_data thermal_data)"
proof -
  let ?c12 = "and_then (validate_area_count inspection_data [])
                (validate_no_thermal_ids_in_areas inspection_data)"
  have "\<not> passes ?c12"
    by (rule and_then_not_passes)
       (simp add: validate_no_thermal_ids_in_areas_def
          no_thermal_ids_loop_thermal_named [OF assms])
  then show ?thesis
    by (simp add: run_checks_def and_then_stops)
qed

lemma run_checks_thermal_named_typed:
  assumes "list_ex thermal_named (get_areas inspection_data)"
    and "names_are_strings inspection_data"
  shows "raises_validation_error (run_checks inspection_data thermal_data)"
proof -
  let ?c12 = "and_then (validate_area_count inspection_data [])
                (validate_no_thermal_ids_in_areas inspection_data)"
  have "raises_validation_error (validate_no_thermal_ids_in_areas inspection_data ws)" for ws
    using no_thermal_ids_loop_typed [of "get_areas inspection_data" ws]
      no_thermal_ids_loop_thermal_named [OF assms(1), of ws] assms(2)
    by (auto simp: validate_no_thermal_ids_in_areas_def names_are_strings_def)
  with validate_area_count_typed [OF assms(2)]
  have "raises_validation_error ?c12"
    by (intro and_then_raises)
  then have "raises_validation_error
      (and_then ?c12 (validate_thermal_structure thermal_data))"
    by (rule and_then_keeps_raise)
  then have "raises_validation_error
      (and_then (and_then ?c12 (validate_thermal_structure thermal_data))
         (validate_no_areas_in_thermal inspection_data thermal_data))"
    by (rule and_then_keeps_raise)
  then show ?thesis
    by (simp only: run_checks_def)
qed

lemma run_checks_uses_area_key:
  assumes "list_ex uses_area_key (get_readings thermal_data)"
  shows "\<not> passes (run_checks inspection_data thermal_data)"
proof -
  let ?c12 = "and_then (validate_area_count inspection_data [])
                (validate_no_thermal_ids_in_areas inspection_data)"
  have "\<not> passes (and_then ?c12 (validate_thermal_structure thermal_data))"
    by (rule and_then_not_passes)
       (simp add: validate_thermal_structure_def
          thermal_structure_loop_uses_area_key [OF assms])
  then show ?thesis
    by (simp add: run_checks_def and_then_stops)
qed

lemma validate_all_not_passes:
  assumes "\<not> passes (run_checks inspection_data thermal_data)"
    and "validate_all inspection_data thermal_data = Inr out"
  shows "\<not> valid (validation out) \<and> errors (validation out) \<noteq> []"
proof -
  obtain ws x where r: "run_checks inspection_data thermal_data = (ws, x)"
    by (cases "run_checks inspection_data thermal_data")
  with assms(1) obtain e where "x = Some e" by (auto simp: passes_def)
  with r assms(2) show ?thesis
    by (cases e) (auto simp: validate_all_def)
qed

lemma validate_all_raises:
  assumes "raises_validation_error (run_checks inspection_data thermal_data)"
  shows "\<exists>ws e. run_checks inspection_data thermal_data = (ws, Some (ValidationError e)) \<and>
     validate_all inspection_data thermal_data =
       Inr \<lparr>validation = \<lparr>valid = False, errors = [e], warnings = ws,
                  area_count = length (get_areas inspection_data),
                  thermal_count = length (get_readings thermal_data)\<rparr>,
            inspection = inspection_data, thermal = thermal_data\<rparr>"
proof -
  obtain ws x where r: "run_checks inspection_data thermal_data = (ws, x)"
    by (cases "run_checks inspection_data thermal_data")
  with assms obtain e where "x = Some (ValidationError e)"
    by (auto simp: raises_validation_error_def split: option.splits exn.splits)
  with r show ?thesis by (simp add: validate_all_def)
qed

lemma validate_all_passes:
  assumes "passes (run_checks inspection_data thermal_data)"
  shows "validate_all inspection_data thermal_data =
       Inr \<lparr>validation = \<lparr>valid = True, errors = [],
                  warnings = fst (run_checks inspection_data thermal_data),
                  area_count = length (get_areas (clean_null_fields inspection_data)),
                  thermal_count = length (get_readings (clean_null_fields thermal_data))\<rparr>,
            inspection = clean_null_fields inspection_data,
            thermal = clean_null_fields thermal_data\<rparr>"
proof -
  obtain ws x where r: "run_checks inspection_data thermal_data = (ws, x)"
    by (cases "run_checks inspection_data thermal_data")
  with assms have "x = None" by (simp add: passes_def)
  with r show ?thesis by (simp add: validate_all_def Let_def)
qed

lemma no_thermal_ids_loop_first:
  "list_all (\<lambda>a. case a ''area_name'' of None \<Rightarrow> True | Some v \<Rightarrow> is_str v) areas \<Longrightarrow>
   list_ex thermal_named areas \<Longrightarrow>
   \<exists>ws' s. no_thermal_ids_loop areas ws = (ws', Some (ValidationError (ThermalIdInAreas (VStr s)))) \<and>
     list_ex (\<lambda>pattern. sublist pattern (lower s)) thermal_patterns"
proof (induction areas arbitrary: ws)
  case Nil
  then show ?case by simp
next
  case (Cons a areas)
  from Cons.prems(1) have "is_str (dict_get a ''area_name'' (VStr []))"
    by (simp add: dict_get_typed)
  then obtain s where s: "dict_get a ''area_name'' (VStr []) = VStr s"
    using is_str_cases by blast
  show ?case
  proof (cases "list_ex (\<lambda>pattern. sublist pattern (lower s)) thermal_patterns")
    case True
    then have "s \<noteq> []"
      by (auto simp: thermal_patterns_def lower_def)
    with s have "a ''area_name'' = Some (VStr s)"
      by (auto simp: dict_get_def split: option.splits)
    then have "dict_get a ''area_name'' VNone = VStr s" by (simp add: dict_get_def)
    with True s show ?thesis by simp
  next
    case False
    with s have "\<not> thermal_named a"
      by (auto simp: thermal_named_def dict_get_def split: option.splits pyval.splits)
    with Cons.prems have "list_ex thermal_named areas"
      and "list_all (\<lambda>a. case a ''area_name'' of None \<Rightarrow> True | Some v \<Rightarrow> is_str v) areas"
      by simp_all
    from Cons.IH [OF this(2) this(1)] False s show ?thesis
      by (simp add: Let_def)
  qed
qed

lemma no_thermal_ids_loop_passes:
  "list_all (\<lambda>a. case a ''area_name'' of None \<Rightarrow> True | Some v \<Rightarrow> is_str v) areas \<Longrightarrow>
   \<not> list_ex thermal_named areas \<Longrightarrow> passes (no_thermal_ids_loop areas ws)"
proof (induction areas arbitrary: ws)
  case Nil
  then show ?case by (simp add: passes_def)
next
  case (Cons a areas)
  from Cons.prems(1) have "is_str (dict_get a ''area_name'' (VStr []))"
    by (simp add: dict_get_typed)
  then obtain s where s: "dict_get a ''area_name'' (VStr []) = VStr s"
    using is_str_cases by blast
  have no: "\<not> list_ex (\<lambda>pattern. sublist pattern (lower s)) thermal_patterns"
  proof
    assume ex: "list_ex (\<lambda>pattern. sublist pattern (lower s)) thermal_patterns"
    then have "s \<noteq> []" by (auto simp: thermal_patterns_def lower_def)
    with s have "a ''area_name'' = Some (VStr s)"
      by (auto simp: dict_get_def split: option.splits)
    with ex have "thermal_named a" by (simp add: thermal_named_def)
    with Cons.prems(2) show False by simp
  qed
  from Cons have IH: "passes (no_thermal_ids_loop areas w)" for w by simp
  show ?case using IH no by (simp add: s Let_def)
qed

lemma thermal_structure_loop_first:
  "list_all (\<lambda>r. case r ''image_id'' of None \<Rightarrow> True | Some v \<Rightarrow> is_str v \<or> \<not> truthy v)
     readings \<Longrightarrow>
   list_ex uses_area_key readings \<Longrightarrow>
   \<exists>ws' j. thermal_structure_loop i readings ws =
              (ws', Some (ValidationError (ThermalUsesArea (i + j)))) \<and>
     j < length readings \<and> uses_area_key (readings ! j) \<and>
     (\<forall>j' < j. \<not> uses_area_key (readings ! j'))"
proof (induction readings arbitrary: i ws)
  case Nil
  then show ?case by simp
next
  case (Cons r readings)
  show ?case
  proof (cases "uses_area_key r")
    case True
    then have "thermal_structure_loop i (r # readings) ws =
        (ws, Some (ValidationError (ThermalUsesArea (i + 0)))) \<and>
      0 < length (r # readings) \<and> uses_area_key ((r # readings) ! 0) \<and>
      (\<forall>j' < 0. \<not> uses_area_key ((r # readings) ! j'))"
      by (simp add: uses_area_key_def)
    then show ?thesis by blast
  next
    case False
    from Cons.prems(1) have v: "(\<exists>s. dict_get r ''image_id'' (VStr []) = VStr s) \<or>
        \<not> truthy (dict_get r ''image_id'' (VStr []))"
      by (simp add: dict_get_checkable)
    from False Cons.prems have "list_ex uses_area_key readings"
      and "list_all (\<lambda>r. case r ''image_id'' of None \<Rightarrow> True
             | Some v \<Rightarrow> is_str v \<or> \<not> truthy v) readings"
      by simp_all
    from Cons.IH [OF this(2) this(1)]
    have IH: "\<exists>ws' j. thermal_structure_loop (i + 1) readings w =
              (ws', Some (ValidationError (ThermalUsesArea (i + 1 + j)))) \<and>
        j < length readings \<and> uses_area_key (readings ! j) \<and>
        (\<forall>j' < j. \<not> uses_area_key (readings ! j'))" for w
      by blast
    have step: "\<exists>w. thermal_structure_loop i (r # readings) ws =
        thermal_structure_loop (i + 1) readings w"
      using False v by (auto simp: Let_def uses_area_key_def)
    then obtain w where w: "thermal_structure_loop i (r # readings) ws =
        thermal_structure_loop (i + 1) readings w" by blast
    from IH [of w] obtain ws' j where j: "thermal_structure_loop (i + 1) readings w =
              (ws', Some (ValidationError (ThermalUsesArea (i + 1 + j))))"
        "j < length readings" "uses_area_key (readings ! j)"
        "\<forall>j' < j. \<not> uses_area_key (readings ! j')" by blast
    have "\<forall>j' < Suc j. \<not> uses_area_key ((r # readings) ! j')"
      using False j(4) by (auto simp: less_Suc_eq_0_disj)
    with j w have "thermal_structure_loop i (r # readings) ws =
              (ws', Some (ValidationError (ThermalUsesArea (i + Suc j)))) \<and>
        Suc j < length (r # readings) \<and> uses_area_key ((r # readings) ! Suc j) \<and>
        (\<forall>j' < Suc j. \<not> uses_area_key ((r # readings) ! j'))"
      by simp
    then show ?thesis by blast
  qed
qed

lemma uppercase_bit5: "\<forall>c \<in> set uppercase. \<not> bit5 c"
  by (simp add: uppercase_def bit5_def)

lemma lowercase_bit5: "\<forall>c \<in> set lowercase. bit5 c"
  by (simp add: lowercase_def bit5_def)

lemma to_lower_not_upper: "to_lower c \<notin> set uppercase"
proof (cases "map_of (zip uppercase lowercase) c")
  case None
  have "length uppercase = length lowercase"
    by (simp add: uppercase_def lowercase_def)
  with None have "c \<notin> set uppercase" by (simp add: map_of_zip_is_None)
  with None show ?thesis by (simp add: to_lower_def)
next
  case (Some l)
  then have "l \<in> set lowercase" by (meson in_set_zipE map_of_SomeD)
  with lowercase_bit5 uppercase_bit5 have "l \<notin> set uppercase" by blast
  with Some show ?thesis by (simp add: to_lower_def)
qed

lemma isupper_lower: "\<not> isupper (lower s)"
  by (simp add: isupper_def lower_def list_ex_iff to_lower_not_upper)

lemma no_thermal_ids_loop_Cons:
  "no_thermal_ids_loop (a # rest) ws =
     (case dict_get a ''area_name'' (VStr []) of
        VStr s \<Rightarrow>
          if list_ex (\<lambda>pattern. sublist pattern (lower s)) thermal_patterns
          then (ws, Some (ValidationError (ThermalIdInAreas (dict_get a ''area_name'' VNone))))
          else if length s > 30
          then no_thermal_ids_loop rest (ws @ [SuspiciousAreaName (dict_get a ''area_name'' VNone)])
          else no_thermal_ids_loop rest ws
      | _ \<Rightarrow> (ws, Some AttributeError))"
  using isupper_lower
  by (simp add: Let_def lower_def split: pyval.splits)

lemmas validator_eval =
  validate_all_def run_checks_def and_then_def validate_area_count_def
  validate_no_thermal_ids_in_areas_def validate_thermal_structure_def
  validate_no_areas_in_thermal_def get_areas_def get_readings_def MAX_AREAS_def
  no_thermal_ids_loop_Cons dict_get_def thermal_patterns_def common_areas_def
  lower_def to_lower_ascii sublist_Cons_right Let_def


lemma run_checks_first_thermal_named:
  assumes "list_ex thermal_named (get_areas inspection_data)"
    and "names_are_strings inspection_data"
    and "length (get_areas inspection_data) \<le> MAX_AREAS"
  shows "\<exists>ws s. run_checks inspection_data thermal_data =
            (ws, Some (ValidationError (ThermalIdInAreas (VStr s)))) \<and>
          list_ex (\<lambda>pattern. sublist pattern (lower s)) thermal_patterns"
proof -
  let ?c1 = "validate_area_count inspection_data []"
  have p1: "passes ?c1" using assms(3) by (simp add: validate_area_count_passes)
  from no_thermal_ids_loop_first [OF _ assms(1), of "fst ?c1"] assms(2)
  obtain ws s where c2: "validate_no_thermal_ids_in_areas inspection_data (fst ?c1) =
        (ws, Some (ValidationError (ThermalIdInAreas (VStr s))))"
    and s: "list_ex (\<lambda>pattern. sublist pattern (lower s)) thermal_patterns"
    unfolding validate_no_thermal_ids_in_areas_def names_are_strings_def by blast
  have "and_then ?c1 (validate_no_thermal_ids_in_areas inspection_data) =
        (ws, Some (ValidationError (ThermalIdInAreas (VStr s))))"
    by (simp only: and_then_passes [OF p1] c2)
  then have "run_checks inspection_data thermal_data =
        (ws, Some (ValidationError (ThermalIdInAreas (VStr s))))"
    by (simp add: run_checks_def and_then_def)
  with s show ?thesis by blast
qed

lemma run_checks_first_uses_area_key:
  assumes "list_ex uses_area_key (get_readings thermal_data)"
    and "names_are_strings inspection_data"
    and "image_ids_checkable thermal_data"
    and "length (get_areas inspection_data) \<le> MAX_AREAS"
    and "\<not> list_ex thermal_named (get_areas inspection_data)"
  shows "\<exists>ws i. run_checks inspection_data thermal_data =
            (ws, Some (ValidationError (ThermalUsesArea i))) \<and>
          i < length (get_readings thermal_data) \<and>
          uses_area_key (get_readings thermal_data ! i) \<and>
          (\<forall>j < i. \<not> uses_area_key (get_readings thermal_data ! j))"
proof -
  let ?c1 = "validate_area_count inspection_data []"
  let ?c12 = "and_then ?c1 (validate_no_thermal_ids_in_areas inspection_data)"
  have p1: "passes ?c1" using assms(4) by (simp add: validate_area_count_passes)
  have "passes (validate_no_thermal_ids_in_areas inspection_data (fst ?c1))"
    using assms(2,5) unfolding validate_no_thermal_ids_in_areas_def names_are_strings_def
    by (rule no_thermal_ids_loop_passes)
  then have p12: "passes ?c12" by (simp only: and_then_passes [OF p1])
  from thermal_structure_loop_first [OF _ assms(1), of 0 "fst ?c12"] assms(3)
  obtain ws i where c3: "validate_thermal_structure thermal_data (fst ?c12) =
        (ws, Some (ValidationError (ThermalUsesArea i)))"
    and i: "i < length (get_readings thermal_data)"
      "uses_area_key (get_readings thermal_data ! i)"
      "\<forall>j < i. \<not> uses_area_key (get_readings thermal_data ! j)"
    unfolding validate_thermal_structure_def image_ids_checkable_def by auto
  have "and_then ?c12 (validate_thermal_structure thermal_data) =
        (ws, Some (ValidationError (ThermalUsesArea i)))"
    by (simp only: and_then_passes [OF p12] c3)
  then have "run_checks inspection_data thermal_data =
        (ws, Some (ValidationError (ThermalUsesArea i)))"
    by (simp add: run_checks_def and_then_def)
  with i show ?thesis by blast
qed

text \<open>
  C5. When some area has a name that, lower-cased, contains one of the image extensions
  or device codes, validation never passes: whenever \<^verbatim>\<open>validate_all\<close> returns, the report
  is invalid and holds an error. When the area names present are strings it does return,
  with exactly one error; and when moreover the areas are at most \<^verbatim>\<open>MAX_AREAS\<close>, that error
  is the one for a thermal image id among the areas.
\<close>

theorem thermal_named_area_is_hard_error:
  assumes "list_ex thermal_named (get_areas inspection_data)"
  shows "(\<forall>out. validate_all inspection_data thermal_data = Inr out \<longrightarrow>
            \<not> valid (validation out) \<and> errors (validation out) \<noteq> []) \<and>
         (names_are_strings inspection_data \<longrightarrow>
            (\<exists>out e. validate_all inspection_data thermal_data = Inr out \<and>
               \<not> valid (validation out) \<and> errors (validation out) = [e])) \<and>
         (names_are_strings inspection_data \<and> length (get_areas inspection_data) \<le> MAX_AREAS \<longrightarrow>
            (\<exists>out s. validate_all inspection_data thermal_data = Inr out \<and>
               errors (validation out) = [ThermalIdInAreas (VStr s)] \<and>
               list_ex (\<lambda>pattern. sublist pattern (lower s)) thermal_patterns))"
proof -
  have a: "\<forall>out. validate_all inspection_data thermal_data = Inr out \<longrightarrow>
            \<not> valid (validation out) \<and> errors (validation out) \<noteq> []"
    using validate_all_not_passes [OF run_checks_thermal_named [OF assms]] by blast
  have b: "names_are_strings inspection_data \<longrightarrow>
            (\<exists>out e. validate_all inspection_data thermal_data = Inr out \<and>
               \<not> valid (validation out) \<and> errors (validation out) = [e])"
  proof
    assume "names_are_strings inspection_data"
    from validate_all_raises [OF run_checks_thermal_named_typed [OF assms this]]
    obtain ws e where "validate_all inspection_data thermal_data =
       Inr \<lparr>validation = \<lparr>valid = False, errors = [e], warnings = ws,
                  area_count = length (get_areas inspection_data),
                  thermal_count = length (get_readings thermal_data)\<rparr>,
            inspection = inspection_data, thermal = thermal_data\<rparr>"
      by blast
    then show "\<exists>out e. validate_all inspection_data thermal_data = Inr out \<and>
               \<not> valid (validation out) \<and> errors (validation out) = [e]"
      by simp
  qed
  have c: "names_are_strings inspection_data \<and> length (get_areas inspection_data) \<le> MAX_AREAS \<longrightarrow>
            (\<exists>out s. validate_all inspection_data thermal_data = Inr out \<and>
               errors (validation out) = [ThermalIdInAreas (VStr s)] \<and>
               list_ex (\<lambda>pattern. sublist pattern (lower s)) thermal_patterns)"
  proof
    assume "names_are_strings inspection_data \<and> length (get_areas inspection_data) \<le> MAX_AREAS"
    with run_checks_first_thermal_named [OF assms]
    obtain ws s where r: "run_checks inspection_data thermal_data =
            (ws, Some (ValidationError (ThermalIdInAreas (VStr s))))"
      and s: "list_ex (\<lambda>pattern. sublist pattern (lower s)) thermal_patterns"
      by blast
    from r have "validate_all inspection_data thermal_data =
       Inr \<lparr>validation = \<lparr>valid = False, errors = [ThermalIdInAreas (VStr s)], warnings = ws,
                  area_count = length (get_areas inspection_data),
                  thermal_count = length (get_readings thermal_data)\<rparr>,
            inspection = inspection_data, thermal = thermal_data\<rparr>"
      by (simp add: validate_all_def)
    with s show "\<exists>out s. validate_all inspection_data thermal_data = Inr out \<and>
               errors (validation out) = [ThermalIdInAreas (VStr s)] \<and>
               list_ex (\<lambda>pattern. sublist pattern (lower s)) thermal_patterns"
      by simp
  qed
  show ?thesis by (rule conjI [OF a conjI [OF b c]])
qed

theorem thermal_named_area_is_hard_error_witness:
  "list_ex thermal_named (get_areas areas_with_image_name) \<and>
   names_are_strings areas_with_image_name \<and>
   length (get_areas areas_with_image_name) \<le> MAX_AREAS \<and>
   validate_all areas_with_image_name reading_without_fields =
     Inr \<lparr>validation = \<lparr>valid = False, errors = [ThermalIdInAreas (VStr ''scan RB01.JPG'')],
                warnings = [], area_count = 2, thermal_count = 1\<rparr>,
          inspection = areas_with_image_name, thermal = reading_without_fields\<rparr> \<and>
   (\<exists>out s. validate_all areas_with_image_name reading_without_fields = Inr out \<and>
      errors (validation out) = [ThermalIdInAreas (VStr s)] \<and>
      list_ex (\<lambda>pattern. sublist pattern (lower s)) thermal_patterns)"
proof -
  have h: "list_ex thermal_named (get_areas areas_with_image_name)"
    by (simp add: areas_with_image_name_def get_areas_def thermal_named_def thermal_patterns_def
        lower_def to_lower_ascii sublist_Cons_right)
  have t: "names_are_strings areas_with_image_name \<and>
           length (get_areas areas_with_image_name) \<le> MAX_AREAS"
    by (simp add: areas_with_image_name_def get_areas_def names_are_strings_def MAX_AREAS_def)
  have e: "validate_all areas_with_image_name reading_without_fields =
     Inr \<lparr>validation = \<lparr>valid = False, errors = [ThermalIdInAreas (VStr ''scan RB01.JPG'')],
                warnings = [], area_count = 2, thermal_count = 1\<rparr>,
          inspection = areas_with_image_name, thermal = reading_without_fields\<rparr>"
    by (simp add: validator_eval areas_with_image_name_def reading_without_fields_def)
  from thermal_named_area_is_hard_error [OF h, of reading_without_fields] h t e
  show ?thesis by blast
qed

lemma run_checks_uses_area_key_checkable:
  assumes "list_ex uses_area_key (get_readings thermal_data)"
    and "names_are_strings inspection_data"
    and "image_ids_checkable thermal_data"
  shows "raises_validation_error (run_checks inspection_data thermal_data)"
proof -
  let ?c12 = "and_then (validate_area_count inspection_data [])
                (validate_no_thermal_ids_in_areas inspection_data)"
  have c2: "passes (validate_no_thermal_ids_in_areas inspection_data ws) \<or>
        raises_validation_error (validate_no_thermal_ids_in_areas inspection_data ws)" for ws
    using assms(2) unfolding validate_no_thermal_ids_in_areas_def names_are_strings_def
    by (rule no_thermal_ids_loop_typed)
  have c12: "passes ?c12 \<or> raises_validation_error ?c12"
    using validate_area_count_typed [OF assms(2)] c2 by (rule and_then_typed)
  have "raises_validation_error (validate_thermal_structure thermal_data ws)" for ws
    using thermal_structure_loop_checkable [of "get_readings thermal_data" 0 ws]
      thermal_structure_loop_uses_area_key [OF assms(1), of 0 ws] assms(3)
    by (auto simp: validate_thermal_structure_def image_ids_checkable_def)
  with c12 have "raises_validation_error
      (and_then ?c12 (validate_thermal_structure thermal_data))"
    by (intro and_then_raises)
  then have "raises_validation_error
      (and_then (and_then ?c12 (validate_thermal_structure thermal_data))
         (validate_no_areas_in_thermal inspection_data thermal_data))"
    by (rule and_then_keeps_raise)
  then show ?thesis
    by (simp only: run_checks_def)
qed

text \<open>
  C4. When some thermal reading has the key \<^verbatim>\<open>area\<close> and not the key \<^verbatim>\<open>image_id\<close>,
  validation never passes: whenever \<^verbatim>\<open>validate_all\<close> returns, the report is invalid and
  holds an error. When the area names present are strings and the image ids present are
  strings or falsy it does return, with exactly one error; and when moreover no earlier
  check fails, that error names the first such reading.
\<close>

theorem thermal_record_with_area_key_is_hard_error:
  assumes "list_ex uses_area_key (get_readings thermal_data)"
  shows "(\<forall>out. validate_all inspection_data thermal_data = Inr out \<longrightarrow>
            \<not> valid (validation out) \<and> errors (validation out) \<noteq> []) \<and>
         (names_are_strings inspection_data \<and> image_ids_checkable thermal_data \<longrightarrow>
            (\<exists>out e. validate_all inspection_data thermal_data = Inr out \<and>
               \<not> valid (validation out) \<and> errors (validation out) = [e])) \<and>
         (names_are_strings inspection_data \<and> image_ids_checkable thermal_data \<and>
          length (get_areas inspection_data) \<le> MAX_AREAS \<and>
          \<not> list_ex thermal_named (get_areas inspection_data) \<longrightarrow>
            (\<exists>out i. validate_all inspection_data thermal_data = Inr out \<and>
               errors (validation out) = [ThermalUsesArea i] \<and>
               i < length (get_readings thermal_data) \<and>
               uses_area_key (get_readings thermal_data ! i) \<and>
               (\<forall>j < i. \<not> uses_area_key (get_readings thermal_data ! j))))"
proof -
  have a: "\<forall>out. validate_all inspection_data thermal_data = Inr out \<longrightarrow>
            \<not> valid (validation out) \<and> errors (validation out) \<noteq> []"
    using validate_all_not_passes [OF run_checks_uses_area_key [OF assms]] by blast
  have b: "names_are_strings inspection_data \<and> image_ids_checkable thermal_data \<longrightarrow>
            (\<exists>out e. validate_all inspection_data thermal_data = Inr out \<and>
               \<not> valid (validation out) \<and> errors (validation out) = [e])"
  proof
    assume "names_are_strings inspection_data \<and> image_ids_checkable thermal_data"
    then have "raises_validation_error (run_checks inspection_data thermal_data)"
      using run_checks_uses_area_key_checkable [OF assms] by blast
    from validate_all_raises [OF this]
    obtain ws e where "validate_all inspection_data thermal_data =
       Inr \<lparr>validation = \<lparr>valid = False, errors = [e], warnings = ws,
                  area_count = length (get_areas inspection_data),
                  thermal_count = length (get_readings thermal_data)\<rparr>,
            inspection = inspection_data, thermal = thermal_data\<rparr>"
      by blast
    then show "\<exists>out e. validate_all inspection_data thermal_data = Inr out \<and>
               \<not> valid (validation out) \<and> errors (validation out) = [e]"
      by simp
  qed
  have c: "names_are_strings inspection_data \<and> image_ids_checkable thermal_data \<and>
          length (get_areas inspection_data) \<le> MAX_AREAS \<and>
          \<not> list_ex thermal_named (get_areas inspection_data) \<longrightarrow>
            (\<exists>out i. validate_all inspection_data thermal_data = Inr out \<and>
               errors (validation out) = [ThermalUsesArea i] \<and>
               i < length (get_readings thermal_data) \<and>
               uses_area_key (get_readings thermal_data ! i) \<and>
               (\<forall>j < i. \<not> uses_area_key (get_readings thermal_data ! j)))"
  proof
    assume "names_are_strings inspection_data \<and> image_ids_checkable thermal_data \<and>
          length (get_areas inspection_data) \<le> MAX_AREAS \<and>
          \<not> list_ex thermal_named (get_areas inspection_data)"
    with run_checks_first_uses_area_key [OF assms]
    obtain ws i where r: "run_checks inspection_data thermal_data =
            (ws, Some (ValidationError (ThermalUsesArea i)))"
      and i: "i < length (get_readings thermal_data) \<and>
          uses_area_key (get_readings thermal_data ! i) \<and>
          (\<forall>j < i. \<not> uses_area_key (get_readings thermal_data ! j))"
      by blast
    from r have "validate_all inspection_data thermal_data =
       Inr \<lparr>validation = \<lparr>valid = False, errors = [ThermalUsesArea i], warnings = ws,
                  area_count = length (get_areas inspection_data),
                  thermal_count = length (get_readings thermal_data)\<rparr>,
            inspection = inspection_data, thermal = thermal_data\<rparr>"
      by (simp add: validate_all_def)
    with i show "\<exists>out i. validate_all inspection_data thermal_data = Inr out \<and>
               errors (validation out) = [ThermalUsesArea i] \<and>
               i < length (get_readings thermal_data) \<and>
               uses_area_key (get_readings thermal_data ! i) \<and>
               (\<forall>j < i. \<not> uses_area_key (get_readings thermal_data ! j))"
      by simp
  qed
  show ?thesis by (rule conjI [OF a conjI [OF b c]])
qed

theorem thermal_record_with_area_key_is_hard_error_witness:
  "list_ex uses_area_key (get_readings reading_with_area_key) \<and>
   names_are_strings one_hall_area \<and> image_ids_checkable reading_with_area_key \<and>
   length (get_areas one_hall_area) \<le> MAX_AREAS \<and>
   \<not> list_ex thermal_named (get_areas one_hall_area) \<and>
   validate_all one_hall_area reading_with_area_key =
     Inr \<lparr>validation = \<lparr>valid = False, errors = [ThermalUsesArea 2],
                warnings = [], area_count = 1, thermal_count = 3\<rparr>,
          inspection = one_hall_area, thermal = reading_with_area_key\<rparr> \<and>
   (\<exists>out e. validate_all one_hall_area reading_with_area_key = Inr out \<and>
      \<not> valid (validation out) \<and> errors (validation out) = [e])"
proof -
  have h: "list_ex uses_area_key (get_readings reading_with_area_key)"
    by (simp add: reading_with_area_key_def get_readings_def uses_area_key_def)
  have t: "names_are_strings one_hall_area \<and> image_ids_checkable reading_with_area_key \<and>
      length (get_areas one_hall_area) \<le> MAX_AREAS \<and>
      \<not> list_ex thermal_named (get_areas one_hall_area)"
    by (simp add: one_hall_area_def reading_with_area_key_def get_areas_def get_readings_def
        names_are_strings_def image_ids_checkable_def MAX_AREAS_def thermal_named_def
        thermal_patterns_def lower_def to_lower_ascii sublist_Cons_right)
  have e: "validate_all one_hall_area reading_with_area_key =
     Inr \<lparr>validation = \<lparr>valid = False, errors = [ThermalUsesArea 2],
                warnings = [], area_count = 1, thermal_count = 3\<rparr>,
          inspection = one_hall_area, thermal = reading_with_area_key\<rparr>"
    by (simp add: validator_eval one_hall_area_def reading_with_area_key_def)
  from thermal_record_with_area_key_is_hard_error [OF h, of one_hall_area] h t e
  show ?thesis by blast
qed

lemma validate_all_total:
  assumes "names_are_strings inspection_data" "image_ids_are_strings thermal_data"
  shows "\<exists>out. validate_all inspection_data thermal_data = Inr out"
proof (cases "passes (run_checks inspection_data thermal_data)")
  case True
  from validate_all_passes [OF True] show ?thesis by blast
next
  case False
  with run_checks_typed [OF assms]
  have "raises_validation_error (run_checks inspection_data thermal_data)" by blast
  from validate_all_raises [OF this] show ?thesis by blast
qed

text \<open>
  Without that typing there may be no report: an area name that is present and is
  \<^verbatim>\<open>None\<close> is lower-cased by the second check, before any cleaning.
\<close>

lemma validate_all_null_name_example:
  "validate_all \<lparr>data_areas = Some [[''area_name'' \<mapsto> VNone]], data_thermal_readings = None\<rparr>
     reading_without_fields = Inl AttributeError"
  by (simp add: validator_eval reading_without_fields_def)

lemma get_areas_clean:
  "get_areas (clean_null_fields data) = map clean_area (get_areas data)"
  by (simp add: get_areas_def clean_null_fields_def split: option.splits)

lemma get_readings_clean:
  "get_readings (clean_null_fields data) = map clean_reading (get_readings data)"
  by (simp add: get_readings_def clean_null_fields_def split: option.splits)

lemma clean_area_apply:
  "clean_area a k =
     (if k = ''area_name''
      then (if truthy (dict_get a k VNone) then a k else Some (VStr ''Not Available''))
      else if k = ''negative_observations'' \<or> k = ''positive_observations''
      then (if is_list (dict_get a k VNone) then a k else Some (VList []))
      else a k)"
  by (simp add: clean_area_def dict_get_def Let_def)

lemma clean_field_apply:
  "clean_field r f k =
     (if k = f \<and> \<not> truthy (dict_get r f VNone) then Some (VStr ''Not Available'') else r k)"
  by (simp add: clean_field_def)

lemma clean_field_get:
  "dict_get (clean_field r f) g VNone =
     (if g = f \<and> \<not> truthy (dict_get r f VNone) then VStr ''Not Available''
      else dict_get r g VNone)"
  by (simp add: clean_field_def dict_get_def)

lemma foldl_clean_field_apply:
  "distinct fs \<Longrightarrow>
   foldl clean_field r fs k =
     (if k \<in> set fs \<and> \<not> truthy (dict_get r k VNone) then Some (VStr ''Not Available'') else r k)"
proof (induction fs arbitrary: r)
  case Nil
  then show ?case by simp
next
  case (Cons f fs)
  then have IH: "foldl clean_field (clean_field r f) fs k =
     (if k \<in> set fs \<and> \<not> truthy (dict_get (clean_field r f) k VNone)
      then Some (VStr ''Not Available'') else clean_field r f k)"
    by simp
  from Cons.prems have "f \<notin> set fs" by simp
  then have step: "(if k \<in> set fs \<and> \<not> truthy (dict_get (clean_field r f) k VNone)
      then Some (VStr ''Not Available'') else clean_field r f k) =
     (if k \<in> set (f # fs) \<and> \<not> truthy (dict_get r k VNone)
      then Some (VStr ''Not Available'') else r k)"
    by (auto simp: clean_field_get clean_field_apply)
  show ?case by (simp only: foldl_Cons IH step)
qed

lemma clean_reading_apply:
  "clean_reading r k =
     (if k \<in> set reading_fields \<and> \<not> truthy (dict_get r k VNone)
      then Some (VStr ''Not Available'') else r k)"
  unfolding clean_reading_def
  by (rule foldl_clean_field_apply) (simp add: reading_fields_def)

lemma validate_all_counts:
  assumes "validate_all inspection_data thermal_data = Inr out"
  shows "area_count (validation out) = length (get_areas inspection_data) \<and>
         thermal_count (validation out) = length (get_readings thermal_data) \<and>
         length (get_areas (inspection out)) = length (get_areas inspection_data) \<and>
         length (get_readings (thermal out)) = length (get_readings thermal_data)"
proof (cases "passes (run_checks inspection_data thermal_data)")
  case True
  from validate_all_passes [OF True] assms show ?thesis
    by (auto simp: get_areas_clean get_readings_clean)
next
  case False
  obtain ws x where r: "run_checks inspection_data thermal_data = (ws, x)"
    by (cases "run_checks inspection_data thermal_data")
  with False obtain e where "x = Some e" by (auto simp: passes_def)
  with r assms show ?thesis
    by (cases e) (auto simp: validate_all_def)
qed

text \<open>
  C10. Cleaning keeps the two lists as long as they were and rewrites elements one by one.
  In an area only three keys can change: \<^verbatim>\<open>area_name\<close>, when it is missing or falsy,
  becomes the sentinel, and each observation key, when it is missing or not a list,
  becomes the empty list. In a reading only the five named keys can change, each to the
  sentinel when it is missing or falsy. Every other key, and every one of these keys
  that is truthy (list-shaped, for observations), keeps its value. The counts
  \<^verbatim>\<open>validate_all\<close> reports are the lengths of its inputs, and it does report when the
  area names and image ids present are strings.
\<close>

theorem null_field_normalization_frame:
  "get_areas (clean_null_fields data) = map clean_area (get_areas data) \<and>
   get_readings (clean_null_fields data) = map clean_reading (get_readings data) \<and>
   length (get_areas (clean_null_fields data)) = length (get_areas data) \<and>
   length (get_readings (clean_null_fields data)) = length (get_readings data) \<and>
   clean_area a k =
     (if k = ''area_name''
      then (if truthy (dict_get a k VNone) then a k else Some (VStr ''Not Available''))
      else if k = ''negative_observations'' \<or> k = ''positive_observations''
      then (if is_list (dict_get a k VNone) then a k else Some (VList []))
      else a k) \<and>
   clean_reading r k =
     (if k \<in> set reading_fields \<and> \<not> truthy (dict_get r k VNone)
      then Some (VStr ''Not Available'') else r k) \<and>
   (\<forall>out. validate_all inspection_data thermal_data = Inr out \<longrightarrow>
      area_count (validation out) = length (get_areas inspection_data) \<and>
      thermal_count (validation out) = length (get_readings thermal_data) \<and>
      length (get_areas (inspection out)) = length (get_areas inspection_data) \<and>
      length (get_readings (thermal out)) = length (get_readings thermal_data)) \<and>
   (names_are_strings inspection_data \<and> image_ids_are_strings thermal_data \<longrightarrow>
      (\<exists>out. validate_all inspection_data thermal_data = Inr out))"
proof -
  have 1: "get_areas (clean_null_fields data) = map clean_area (get_areas data)"
    by (rule get_areas_clean)
  have 2: "get_readings (clean_null_fields data) = map clean_reading (get_readings data)"
    by (rule get_readings_clean)
  have 3: "length (get_areas (clean_null_fields data)) = length (get_areas data)"
    by (simp add: get_areas_clean)
  have 4: "length (get_readings (clean_null_fields data)) = length (get_readings data)"
    by (simp add: get_readings_clean)
  have 7: "\<forall>out. validate_all inspection_data thermal_data = Inr out \<longrightarrow>
      area_count (validation out) = length (get_areas inspection_data) \<and>
      thermal_count (validation out) = length (get_readings thermal_data) \<and>
      length (get_areas (inspection out)) = length (get_areas inspection_data) \<and>
      length (get_readings (thermal out)) = length (get_readings thermal_data)"
    using validate_all_counts by blast
  have 8: "names_are_strings inspection_data \<and> image_ids_are_strings thermal_data \<longrightarrow>
      (\<exists>out. validate_all inspection_data thermal_data = Inr out)"
    using validate_all_total by blast
  show ?thesis
    by (rule conjI [OF 1 conjI [OF 2 conjI [OF 3 conjI [OF 4
          conjI [OF clean_area_apply conjI [OF clean_reading_apply conjI [OF 7 8]]]]]]])
qed

lemma validate_all_example_valid:
  "validate_all one_hall_area reading_without_fields =
     Inr \<lparr>validation = \<lparr>valid = True, errors = [],
                warnings = [ImageIdLooksLikeArea ''hall.jpg''],
                area_count = 1, thermal_count = 1\<rparr>,
          inspection = clean_null_fields one_hall_area,
          thermal = clean_null_fields reading_without_fields\<rparr>"
  by (simp add: validator_eval one_hall_area_def reading_without_fields_def
      clean_null_fields_def)

theorem null_field_normalization_frame_witness:
  "validate_all one_hall_area reading_without_fields =
     Inr \<lparr>validation = \<lparr>valid = True, errors = [],
                warnings = [ImageIdLooksLikeArea ''hall.jpg''],
                area_count = 1, thermal_count = 1\<rparr>,
          inspection = clean_null_fields one_hall_area,
          thermal = clean_null_fields reading_without_fields\<rparr> \<and>
   length (get_areas one_hall_area) = 1 \<and>
   length (get_readings reading_without_fields) = 1 \<and>
   length (get_areas (clean_null_fields one_hall_area)) = 1 \<and>
   hd (get_areas (clean_null_fields one_hall_area)) ''area_name'' = Some (VStr ''Hall'') \<and>
   hd (get_areas (clean_null_fields one_hall_area)) ''negative_observations'' = Some (VList []) \<and>
   hd (get_readings (clean_null_fields reading_without_fields)) ''image_id'' =
     Some (VStr ''hall.jpg'') \<and>
   hd (get_readings (clean_null_fields reading_without_fields)) ''hotspot'' =
     Some (VStr ''Not Available'')"
proof -
  note f = null_field_normalization_frame
  have a: "get_areas one_hall_area =
      [[''area_name'' \<mapsto> VStr ''Hall'', ''negative_observations'' \<mapsto> VNone]]"
    by (simp add: one_hall_area_def get_areas_def)
  have r: "get_readings reading_without_fields = [[''image_id'' \<mapsto> VStr ''hall.jpg'']]"
    by (simp add: reading_without_fields_def get_readings_def)
  from f [of one_hall_area] have ga: "get_areas (clean_null_fields one_hall_area) =
      [clean_area [''area_name'' \<mapsto> VStr ''Hall'', ''negative_observations'' \<mapsto> VNone]]"
    by (simp add: a)
  from f [of reading_without_fields] have gr:
    "get_readings (clean_null_fields reading_without_fields) =
      [clean_reading [''image_id'' \<mapsto> VStr ''hall.jpg'']]"
    by (simp add: r)
  have n: "clean_area [''area_name'' \<mapsto> VStr ''Hall'', ''negative_observations'' \<mapsto> VNone]
             ''area_name'' = Some (VStr ''Hall'')"
    using f [where a = "[''area_name'' \<mapsto> VStr ''Hall'', ''negative_observations'' \<mapsto> VNone]"
              and k = "''area_name''"]
    by (simp add: dict_get_def)
  have o: "clean_area [''area_name'' \<mapsto> VStr ''Hall'', ''negative_observations'' \<mapsto> VNone]
             ''negative_observations'' = Some (VList [])"
    using f [where a = "[''area_name'' \<mapsto> VStr ''Hall'', ''negative_observations'' \<mapsto> VNone]"
              and k = "''negative_observations''"]
    by (simp add: dict_get_def)
  have i: "clean_reading [''image_id'' \<mapsto> VStr ''hall.jpg''] ''image_id'' =
             Some (VStr ''hall.jpg'')"
    using f [where r = "[''image_id'' \<mapsto> VStr ''hall.jpg'']" and k = "''image_id''"]
    by (simp add: dict_get_def reading_fields_def)
  have h: "clean_reading [''image_id'' \<mapsto> VStr ''hall.jpg''] ''hotspot'' =
             Some (VStr ''Not Available'')"
    using f [where r = "[''image_id'' \<mapsto> VStr ''hall.jpg'']" and k = "''hotspot''"]
    by (simp add: dict_get_def reading_fields_def)
  show ?thesis
    using validate_all_example_valid a r ga gr n o i h by simp
qed

lemma validate_no_areas_in_thermal_no_error:
  "\<not> raises_validation_error (validate_no_areas_in_thermal inspection_data thermal_data ws)"
proof (cases "lower_names (get_areas inspection_data)")
  case None
  then show ?thesis
    by (simp add: validate_no_areas_in_thermal_def raises_validation_error_def)
next
  case (Some ns)
  then show ?thesis
    by (simp add: validate_no_areas_in_thermal_def no_areas_in_thermal_loop_no_error)
qed

lemma validate_all_report:
  assumes "validate_all inspection_data thermal_data = Inr out"
  shows "if valid (validation out)
         then errors (validation out) = [] \<and>
              run_checks inspection_data thermal_data = (warnings (validation out), None) \<and>
              inspection out = clean_null_fields inspection_data \<and>
              thermal out = clean_null_fields thermal_data
         else (\<exists>e. errors (validation out) = [e] \<and>
                 run_checks inspection_data thermal_data =
                   (warnings (validation out), Some (ValidationError e))) \<and>
              inspection out = inspection_data \<and> thermal out = thermal_data"
proof -
  obtain ws x where r: "run_checks inspection_data thermal_data = (ws, x)"
    by (cases "run_checks inspection_data thermal_data")
  show ?thesis
  proof (cases x)
    case None
    with r assms show ?thesis by (auto simp: validate_all_def Let_def)
  next
    case (Some e)
    with r assms show ?thesis by (cases e) (auto simp: validate_all_def)
  qed
qed

text \<open>
  C3. A thermal-looking area name is a hard error that stops the run: the thermal check,
  which alone would have warned about the image id, adds nothing, and the reading comes
  back without the sentinel values the cleaning would have written.
\<close>

theorem normalization_skipped_counterexample:
  "validate_all areas_with_image_name reading_without_fields =
     Inr \<lparr>validation = \<lparr>valid = False, errors = [ThermalIdInAreas (VStr ''scan RB01.JPG'')],
                warnings = [], area_count = 2, thermal_count = 1\<rparr>,
          inspection = areas_with_image_name, thermal = reading_without_fields\<rparr> \<and>
   validate_thermal_structure reading_without_fields [] =
     ([ImageIdLooksLikeArea ''hall.jpg''], None) \<and>
   clean_null_fields reading_without_fields \<noteq> reading_without_fields"
proof -
  have e: "validate_all areas_with_image_name reading_without_fields =
     Inr \<lparr>validation = \<lparr>valid = False, errors = [ThermalIdInAreas (VStr ''scan RB01.JPG'')],
                warnings = [], area_count = 2, thermal_count = 1\<rparr>,
          inspection = areas_with_image_name, thermal = reading_without_fields\<rparr>"
    by (simp add: validator_eval areas_with_image_name_def reading_without_fields_def)
  have w: "validate_thermal_structure reading_without_fields [] =
     ([ImageIdLooksLikeArea ''hall.jpg''], None)"
    by (simp add: validator_eval reading_without_fields_def)
  have "clean_null_fields reading_without_fields \<noteq> reading_without_fields"
  proof
    assume "clean_null_fields reading_without_fields = reading_without_fields"
    then have "get_readings (clean_null_fields reading_without_fields) =
        get_readings reading_without_fields" by simp
    then have "clean_reading [''image_id'' \<mapsto> VStr ''hall.jpg''] =
        [''image_id'' \<mapsto> VStr ''hall.jpg'']"
      by (simp add: get_readings_clean) (simp add: get_readings_def reading_without_fields_def)
    then have "clean_reading [''image_id'' \<mapsto> VStr ''hall.jpg''] ''hotspot'' =
        [''image_id'' \<mapsto> VStr ''hall.jpg''] ''hotspot''" by simp
    then show False
      by (simp add: clean_reading_apply reading_fields_def dict_get_def)
  qed
  with e w show ?thesis by (intro conjI)
qed

text \<open>
  C3, amended. The four checks run in order and an exception in one of them skips the
  checks after it; the area-count check, the check for thermal ids among the areas and
  the check of the thermal structure can raise a validation error, the fourth check
  cannot. A report is valid exactly when it holds no error. A valid report comes with
  both collections cleaned and with the warnings of all four checks; an invalid one
  holds the one error that stopped the run, the warnings up to it, and both collections
  as they were given. There is a report whenever the area names and image ids present
  are strings.
\<close>

theorem validation_stops_at_first_hard_error:
  "(\<forall>ws e. validate_area_count inspection_data [] = (ws, Some e) \<longrightarrow>
      run_checks inspection_data thermal_data = (ws, Some e)) \<and>
   (\<forall>ws1 ws e. validate_area_count inspection_data [] = (ws1, None) \<and>
      validate_no_thermal_ids_in_areas inspection_data ws1 = (ws, Some e) \<longrightarrow>
      run_checks inspection_data thermal_data = (ws, Some e)) \<and>
   (\<forall>ws1 ws2 ws e. validate_area_count inspection_data [] = (ws1, None) \<and>
      validate_no_thermal_ids_in_areas inspection_data ws1 = (ws2, None) \<and>
      validate_thermal_structure thermal_data ws2 = (ws, Some e) \<longrightarrow>
      run_checks inspection_data thermal_data = (ws, Some e)) \<and>
   (\<forall>ws1 ws2 ws3. validate_area_count inspection_data [] = (ws1, None) \<and>
      validate_no_thermal_ids_in_areas inspection_data ws1 = (ws2, None) \<and>
      validate_thermal_structure thermal_data ws2 = (ws3, None) \<longrightarrow>
      run_checks inspection_data thermal_data =
        validate_no_areas_in_thermal inspection_data thermal_data ws3) \<and>
   (\<forall>ws. \<not> raises_validation_error
      (validate_no_areas_in_thermal inspection_data thermal_data ws)) \<and>
   (\<forall>out. validate_all inspection_data thermal_data = Inr out \<longrightarrow>
      (if valid (validation out)
       then errors (validation out) = [] \<and>
            run_checks inspection_data thermal_data = (warnings (validation out), None) \<and>
            inspection out = clean_null_fields inspection_data \<and>
            thermal out = clean_null_fields thermal_data
       else (\<exists>e. errors (validation out) = [e] \<and>
               run_checks inspection_data thermal_data =
                 (warnings (validation out), Some (ValidationError e))) \<and>
            inspection out = inspection_data \<and> thermal out = thermal_data)) \<and>
   (names_are_strings inspection_data \<and> image_ids_are_strings thermal_data \<longrightarrow>
      (\<exists>out. validate_all inspection_data thermal_data = Inr out))"
proof -
  have 1: "\<forall>ws e. validate_area_count inspection_data [] = (ws, Some e) \<longrightarrow>
      run_checks inspection_data thermal_data = (ws, Some e)"
    by (simp add: run_checks_def and_then_def)
  have 2: "\<forall>ws1 ws e. validate_area_count inspection_data [] = (ws1, None) \<and>
      validate_no_thermal_ids_in_areas inspection_data ws1 = (ws, Some e) \<longrightarrow>
      run_checks inspection_data thermal_data = (ws, Some e)"
    by (simp add: run_checks_def and_then_def)
  have 3: "\<forall>ws1 ws2 ws e. validate_area_count inspection_data [] = (ws1, None) \<and>
      validate_no_thermal_ids_in_areas inspection_data ws1 = (ws2, None) \<and>
      validate_thermal_structure thermal_data ws2 = (ws, Some e) \<longrightarrow>
      run_checks inspection_data thermal_data = (ws, Some e)"
    by (simp add: run_checks_def and_then_def)
  have 4: "\<forall>ws1 ws2 ws3. validate_area_count inspection_data [] = (ws1, None) \<and>
      validate_no_thermal_ids_in_areas inspection_data ws1 = (ws2, None) \<and>
      validate_thermal_structure thermal_data ws2 = (ws3, None) \<longrightarrow>
      run_checks inspection_data thermal_data =
        validate_no_areas_in_thermal inspection_data thermal_data ws3"
    by (simp add: run_checks_def and_then_def)
  have 5: "\<forall>ws. \<not> raises_validation_error
      (validate_no_areas_in_thermal inspection_data thermal_data ws)"
    by (simp add: validate_no_areas_in_thermal_no_error)
  have 6: "\<forall>out. validate_all inspection_data thermal_data = Inr out \<longrightarrow>
      (if valid (validation out)
       then errors (validation out) = [] \<and>
            run_checks inspection_data thermal_data = (warnings (validation out), None) \<and>
            inspection out = clean_null_fields inspection_data \<and>
            thermal out = clean_null_fields thermal_data
       else (\<exists>e. errors (validation out) = [e] \<and>
               run_checks inspection_data thermal_data =
                 (warnings (validation out), Some (ValidationError e))) \<and>
            inspection out = inspection_data \<and> thermal out = thermal_data)"
    using validate_all_report by blast
  have 7: "names_are_strings inspection_data \<and> image_ids_are_strings thermal_data \<longrightarrow>
      (\<exists>out. validate_all inspection_data thermal_data = Inr out)"
    using validate_all_total by blast
  show ?thesis
    by (rule conjI [OF 1 conjI [OF 2 conjI [OF 3 conjI [OF 4 conjI [OF 5 conjI [OF 6 7]]]]]])
qed

theorem validation_stops_at_first_hard_error_witness:
  "validate_area_count areas_with_image_name [] = ([], None) \<and>
   validate_no_thermal_ids_in_areas areas_with_image_name [] =
     ([], Some (ValidationError (ThermalIdInAreas (VStr ''scan RB01.JPG'')))) \<and>
   run_checks areas_with_image_name reading_without_fields =
     ([], Some (ValidationError (ThermalIdInAreas (VStr ''scan RB01.JPG'')))) \<and>
   validate_all one_hall_area reading_without_fields =
     Inr \<lparr>validation = \<lparr>valid = True, errors = [],
                warnings = [ImageIdLooksLikeArea ''hall.jpg''],
                area_count = 1, thermal_count = 1\<rparr>,
          inspection = clean_null_fields one_hall_area,
          thermal = clean_null_fields reading_without_fields\<rparr> \<and>
   run_checks one_hall_area reading_without_fields =
     ([ImageIdLooksLikeArea ''hall.jpg''], None)"
proof -
  have c1: "validate_area_count areas_with_image_name [] = ([], None)"
    by (simp add: validator_eval areas_with_image_name_def)
  have c2: "validate_no_thermal_ids_in_areas areas_with_image_name [] =
     ([], Some (ValidationError (ThermalIdInAreas (VStr ''scan RB01.JPG''))))"
    by (simp add: validator_eval areas_with_image_name_def)
  from validation_stops_at_first_hard_error [of areas_with_image_name reading_without_fields]
    c1 c2
  have r: "run_checks areas_with_image_name reading_without_fields =
     ([], Some (ValidationError (ThermalIdInAreas (VStr ''scan RB01.JPG''))))"
    by blast
  from validation_stops_at_first_hard_error [of one_hall_area reading_without_fields]
    validate_all_example_valid
  have v: "run_checks one_hall_area reading_without_fields =
     ([ImageIdLooksLikeArea ''hall.jpg''], None)"
    by simp
  from c1 c2 r v validate_all_example_valid show ?thesis by (intro conjI)
qed

end
